theory Spec2Isabelle
  imports Main "HOL-Library.Word"
begin

unbundle bit_operations_syntax

section \<open>PBKDF2 of pkcs5.c\<close>

text \<open>
  A shallow embedding of \<^verbatim>\<open>_gnutls_pkcs5_pbkdf2\<close> (src/lib/x509/pkcs5.c).
  \<^item> \<^verbatim>\<open>unsigned int\<close> is a 32-bit word; \<open>+\<close>, \<open>-\<close>, \<open>*\<close> wrap. The block counter
    \<^verbatim>\<open>int i\<close> is only ever read through \<^verbatim>\<open>(uint)i\<close>, a mask, or a product with the
    unsigned \<open>hLen\<close>, so it is kept as its 32-bit pattern; its increment past
    \<^verbatim>\<open>INT_MAX\<close> (undefined in C) is taken as two's-complement wrap-around.
  \<^item> A pointer into memory the function reads or writes (\<open>DK\<close>, the arrays \<open>U\<close> and
    \<open>T\<close>, the digest returned by \<^verbatim>\<open>gcry_md_read\<close>) is a map from offsets to bytes.
    The input strings \<open>P\<close> and \<open>S\<close> come with their lengths and are byte lists
    (\<open>Plen = length P\<close>, \<open>Slen = length S\<close>); the source reads them through
    \<^verbatim>\<open>const\<close> pointers and the model passes them by value.
  \<^item> Both \<^verbatim>\<open>for\<close> loops can run forever (their counters wrap), so each takes fuel:
    the number of iterations it may still start. A run that needs more ends in
    \<open>OutOfFuel\<close> with the state reached so far.
\<close>

type_synonym byte = "8 word"
type_synonym uint = "32 word"

subsection \<open>Return codes and the maximum block length\<close>

text \<open>
  Modelled from the spec: the header pkcs5.h with the five return codes is not among the
  sources; the spec lists them as the exhaustive, pairwise distinct error kinds.
\<close>

datatype pkcs5_rc =
    PKCS5_OK
  | PKCS5_INVALID_PRF
  | PKCS5_INVALID_ITERATION_COUNT
  | PKCS5_INVALID_DERIVED_KEY_LENGTH
  | PKCS5_DERIVED_KEY_TOO_LONG

definition MAX_PRF_BLOCK_LEN :: uint where
  "MAX_PRF_BLOCK_LEN = 80"

subsection \<open>The keyed-hash library\<close>

text \<open>
  libgcrypt is an external collaborator. What the function can observe of it is a
  parameter of the model:
  \<^item> \<open>md_get_algo_dlen\<close>: the digest length \<open>hLen\<close> of an algorithm;
  \<^item> \<open>md_open_err\<close>: whether opening an HMAC context for the algorithm fails;
  \<^item> \<open>md_setkey_rc\<close>: whether keying the context with a given key fails;
  \<^item> \<open>md_hmac\<close>: the digest the context yields for (algorithm, key, bytes written
    since the last reset), as a pointer to the digest bytes, \<open>None\<close> for \<^verbatim>\<open>NULL\<close>;
  \<^item> \<open>alloca_null\<close>: whether \<^verbatim>\<open>gnutls_alloca\<close> of that many bytes yields \<^verbatim>\<open>NULL\<close>
    (the macro is not among the sources; the function tests its result).
\<close>

record gcry =
  md_get_algo_dlen :: "int \<Rightarrow> uint"
  md_open_err :: "int \<Rightarrow> bool"
  md_setkey_rc :: "byte list \<Rightarrow> bool"
  md_hmac :: "int \<Rightarrow> byte list \<Rightarrow> byte list \<Rightarrow> (nat \<Rightarrow> byte) option"
  alloca_null :: "nat \<Rightarrow> bool"

text \<open>The context behind a handle: the key and the bytes written since the last reset.\<close>

record md_hd =
  hd_key :: "byte list"
  hd_buf :: "byte list"

text \<open>
  The state the function works on: the caller's memory at \<open>DK\<close>, the two local arrays,
  the context behind the local handle \<^verbatim>\<open>prf\<close> (the field \<open>prf_hd\<close>), and the number of
  contexts of the library that are open (\<^verbatim>\<open>gcry_md_open\<close> adds one, \<^verbatim>\<open>gcry_md_close\<close> removes one).
\<close>

record state =
  DK :: "nat \<Rightarrow> byte"
  U :: "nat \<Rightarrow> byte"
  T :: "nat \<Rightarrow> byte"
  prf_hd :: md_hd
  md_live :: nat

definition gcry_md_open :: "gcry \<Rightarrow> int \<Rightarrow> state \<Rightarrow> state option" where
  "gcry_md_open g PRF st =
     (if md_open_err g PRF then None
      else Some (st\<lparr>prf_hd := \<lparr>hd_key = [], hd_buf = []\<rparr>, md_live := Suc (md_live st)\<rparr>))"

definition gcry_md_close :: "state \<Rightarrow> state" where
  "gcry_md_close st = st\<lparr>md_live := md_live st - 1\<rparr>"

definition gcry_md_reset :: "md_hd \<Rightarrow> md_hd" where
  "gcry_md_reset h = h\<lparr>hd_buf := []\<rparr>"

definition gcry_md_setkey :: "gcry \<Rightarrow> md_hd \<Rightarrow> byte list \<Rightarrow> md_hd option" where
  "gcry_md_setkey g h key =
     (if md_setkey_rc g key then None else Some (h\<lparr>hd_key := key\<rparr>))"

definition gcry_md_write :: "md_hd \<Rightarrow> byte list \<Rightarrow> md_hd" where
  "gcry_md_write h bs = h\<lparr>hd_buf := hd_buf h @ bs\<rparr>"

definition gcry_md_read :: "gcry \<Rightarrow> md_hd \<Rightarrow> int \<Rightarrow> (nat \<Rightarrow> byte) option" where
  "gcry_md_read g h PRF = md_hmac g PRF (hd_key h) (hd_buf h)"

subsection \<open>Memory\<close>

text \<open>\<^verbatim>\<open>memset (d, v, n)\<close>, \<^verbatim>\<open>memcpy (d + off, s, n)\<close>, and the \<open>n\<close> bytes at a pointer.\<close>

definition memset :: "(nat \<Rightarrow> byte) \<Rightarrow> byte \<Rightarrow> nat \<Rightarrow> (nat \<Rightarrow> byte)" where
  "memset d v n = (\<lambda>k. if k < n then v else d k)"

definition memcpy :: "(nat \<Rightarrow> byte) \<Rightarrow> nat \<Rightarrow> (nat \<Rightarrow> byte) \<Rightarrow> nat \<Rightarrow> (nat \<Rightarrow> byte)" where
  "memcpy d off s n = (\<lambda>k. if off \<le> k \<and> k < off + n then s (k - off) else d k)"

definition bytes_at :: "(nat \<Rightarrow> byte) \<Rightarrow> nat \<Rightarrow> byte list" where
  "bytes_at m n = map m [0..<n]"

subsection \<open>The function\<close>

text \<open>
  The four bytes stored behind the salt (lines 181 to 184); the masks \<^verbatim>\<open>0xff000000\<close>,
  \<^verbatim>\<open>0x00ff0000\<close>, \<^verbatim>\<open>0x0000ff00\<close> and \<^verbatim>\<open>0x000000ff\<close> are written in decimal.
\<close>

definition int_octets :: "uint \<Rightarrow> byte list" where
  "int_octets i =
     [ucast (drop_bit 24 (i AND 4278190080)),
      ucast (drop_bit 16 (i AND 16711680)),
      ucast (drop_bit 8 (i AND 65280)),
      ucast (drop_bit 0 (i AND 255))]"

text \<open>\<^verbatim>\<open>for (k = 0; (uint)k < hLen; k++) T[k] ^= U[k];\<close>\<close>

function xor_loop :: "uint \<Rightarrow> uint \<Rightarrow> (nat \<Rightarrow> byte) \<Rightarrow> (nat \<Rightarrow> byte) \<Rightarrow> (nat \<Rightarrow> byte)" where
  "xor_loop k hLen t u =
     (if k < hLen then xor_loop (k + 1) hLen (t(unat k := t (unat k) XOR u (unat k))) u
      else t)"
  by pat_completeness auto
termination
proof (relation "measure (\<lambda>(k, hLen, t, u). unat hLen - unat k)")
  fix k hLen :: uint and t u :: "nat \<Rightarrow> byte"
  assume lt: "k < hLen"
  then have "k \<noteq> - 1"
    by (metis word_n1_ge not_less)
  then have "unat (k + 1) = Suc (unat k)"
    by (metis add.commute unatSuc add_eq_0_iff2)
  moreover from lt have "unat k < unat hLen"
    by (simp add: word_less_nat_alt)
  ultimately show "((k + 1, hLen, t(unat k := t (unat k) XOR u (unat k)), u), (k, hLen, t, u))
      \<in> measure (\<lambda>(k, hLen, t, u). unat hLen - unat k)"
    by simp
qed simp

declare xor_loop.simps [simp del]

datatype flow = Next state | Return pkcs5_rc state | OutOfFuel state

text \<open>One pass through the body of the inner loop (lines 165 to 201).\<close>

definition iteration ::
  "gcry \<Rightarrow> int \<Rightarrow> byte list \<Rightarrow> byte list \<Rightarrow> uint \<Rightarrow> uint \<Rightarrow> uint \<Rightarrow> state \<Rightarrow> flow" where
  "iteration g PRF P S hLen i u st =
     (let st1 = st\<lparr>prf_hd := gcry_md_reset (prf_hd st)\<rparr> in
      case gcry_md_setkey g (prf_hd st1) P of
        None \<Rightarrow> Return PKCS5_INVALID_PRF st1
      | Some h \<Rightarrow>
          let st2 = st1\<lparr>prf_hd := h\<rparr> in
          if u = 1 \<and> alloca_null g (length S + 4) then Return PKCS5_INVALID_PRF st2
          else
            let st3 = (if u = 1 then st2\<lparr>prf_hd := gcry_md_write (prf_hd st2) (S @ int_octets i)\<rparr>
                       else st2\<lparr>prf_hd := gcry_md_write (prf_hd st2) (bytes_at (U st2) (unat hLen))\<rparr>) in
            case gcry_md_read g (prf_hd st3) PRF of
              None \<Rightarrow> Return PKCS5_INVALID_PRF st3
            | Some p \<Rightarrow>
                let st4 = st3\<lparr>U := memcpy (U st3) 0 p (unat hLen)\<rparr> in
                Next (st4\<lparr>T := xor_loop 0 hLen (T st4) (U st4)\<rparr>))"

text \<open>\<^verbatim>\<open>for (u = 1; u <= c; u++)\<close>, entered with the current \<open>u\<close>.\<close>

fun inner_loop ::
  "nat \<Rightarrow> gcry \<Rightarrow> int \<Rightarrow> byte list \<Rightarrow> byte list \<Rightarrow> uint \<Rightarrow> uint \<Rightarrow> uint \<Rightarrow> uint \<Rightarrow> state \<Rightarrow> flow" where
  "inner_loop fuel g PRF P S hLen c i u st =
     (if u \<le> c then
        (case fuel of
           0 \<Rightarrow> OutOfFuel st
         | Suc n \<Rightarrow>
            (case iteration g PRF P S hLen i u st of
               Next st' \<Rightarrow> inner_loop n g PRF P S hLen c i (u + 1) st'
             | other \<Rightarrow> other))
      else Next st)"

declare inner_loop.simps [simp del]

text \<open>
  \<^verbatim>\<open>for (i = 1; (uint)i <= l; i++)\<close>, entered with the current \<open>i\<close>; \<open>fi\<close> is the fuel
  each run of the inner loop gets.
\<close>

fun outer_loop ::
  "nat \<Rightarrow> nat \<Rightarrow> gcry \<Rightarrow> int \<Rightarrow> byte list \<Rightarrow> byte list \<Rightarrow> uint \<Rightarrow> uint \<Rightarrow> uint \<Rightarrow> uint \<Rightarrow> uint
     \<Rightarrow> state \<Rightarrow> flow" where
  "outer_loop fo fi g PRF P S hLen c l r i st =
     (if i \<le> l then
        (case fo of
           0 \<Rightarrow> OutOfFuel st
         | Suc n \<Rightarrow>
            (case inner_loop fi g PRF P S hLen c i 1 (st\<lparr>T := memset (T st) 0 (unat hLen)\<rparr>) of
               Next st' \<Rightarrow>
                 outer_loop n fi g PRF P S hLen c l r (i + 1)
                   (st'\<lparr>DK := memcpy (DK st') (unat ((i - 1) * hLen)) (T st')
                                 (unat (if i = l then r else hLen))\<rparr>)
             | other \<Rightarrow> other))
      else Next st)"

declare outer_loop.simps [simp del]

text \<open>The block count and the length of the last block (lines 108 to 111).\<close>

definition block_count :: "uint \<Rightarrow> uint \<Rightarrow> uint" where
  "block_count dkLen hLen =
     (let l = dkLen div hLen in if dkLen mod hLen \<noteq> 0 then l + 1 else l)"

definition last_len :: "uint \<Rightarrow> uint \<Rightarrow> uint" where
  "last_len dkLen hLen = dkLen - (block_count dkLen hLen - 1) * hLen"

text \<open>
  The whole function. It ends in \<open>Return\<close> with the code it returns and the state it
  leaves, or in \<open>OutOfFuel\<close>; it never ends in \<open>Next\<close>.
\<close>

definition gnutls_pkcs5_pbkdf2 ::
  "nat \<Rightarrow> nat \<Rightarrow> gcry \<Rightarrow> int \<Rightarrow> byte list \<Rightarrow> byte list \<Rightarrow> uint \<Rightarrow> uint \<Rightarrow> state \<Rightarrow> flow" where
  "gnutls_pkcs5_pbkdf2 fo fi g PRF P S c dkLen st =
     (let hLen = md_get_algo_dlen g PRF in
      if hLen = 0 \<or> hLen > MAX_PRF_BLOCK_LEN then Return PKCS5_INVALID_PRF st
      else if c = 0 then Return PKCS5_INVALID_ITERATION_COUNT st
      else if dkLen = 0 then Return PKCS5_INVALID_DERIVED_KEY_LENGTH st
      else if dkLen > 4294967295 then Return PKCS5_DERIVED_KEY_TOO_LONG st
      else
        let l = block_count dkLen hLen;
            r = last_len dkLen hLen in
        case gcry_md_open g PRF st of
          None \<Rightarrow> Return PKCS5_INVALID_PRF st
        | Some st0 \<Rightarrow>
            (case outer_loop fo fi g PRF P S hLen c l r 1 st0 of
               Next st' \<Rightarrow> Return PKCS5_OK (gcry_md_close st')
             | other \<Rightarrow> other))"

text \<open>
  What one pass of the inner loop obtains from the library: no digest when keying or the
  allocation fails, else the digest of the bytes it writes.
\<close>

definition step_digest ::
  "gcry \<Rightarrow> int \<Rightarrow> byte list \<Rightarrow> byte list \<Rightarrow> uint \<Rightarrow> uint \<Rightarrow> uint \<Rightarrow> state
     \<Rightarrow> (nat \<Rightarrow> byte) option" where
  "step_digest g PRF P S hLen i u st =
     (if md_setkey_rc g P \<or> (u = 1 \<and> alloca_null g (length S + 4)) then None
      else md_hmac g PRF P (if u = 1 then S @ int_octets i else bytes_at (U st) (unat hLen)))"

subsection \<open>PBKDF2 in the words of the specification\<close>

text \<open>
  The four-byte encoding of the block index, most significant byte first; the PRF keyed
  with the password; the iterates \<open>U_1 = PRF (P, S || INT (i))\<close>,
  \<open>U_k = PRF (P, U_{k-1})\<close> (\<open>U_iter \<dots> k\<close> is the iterate number \<open>k + 1\<close>); the XOR
  of the first \<open>n\<close> iterates; the block \<open>T_i\<close>; the blocks \<open>T_1 || \<dots> || T_n\<close>; and the
  derived key, their first \<open>dkLen\<close> bytes for \<open>l = ceil (dkLen / hLen)\<close>. A PRF
  invocation that fails makes everything built on it \<open>None\<close>.
\<close>

definition INT32_BE :: "nat \<Rightarrow> byte list" where
  "INT32_BE i =
     [of_nat (i div 2 ^ 24 mod 256), of_nat (i div 2 ^ 16 mod 256),
      of_nat (i div 2 ^ 8 mod 256), of_nat (i mod 256)]"

definition PRF_out :: "gcry \<Rightarrow> int \<Rightarrow> nat \<Rightarrow> byte list \<Rightarrow> byte list \<Rightarrow> byte list option" where
  "PRF_out g PRF h key msg =
     (if md_setkey_rc g key then None
      else map_option (\<lambda>p. bytes_at p h) (md_hmac g PRF key msg))"

fun U_iter ::
  "gcry \<Rightarrow> int \<Rightarrow> nat \<Rightarrow> byte list \<Rightarrow> byte list \<Rightarrow> nat \<Rightarrow> nat \<Rightarrow> byte list option" where
  "U_iter g PRF h P S i 0 = PRF_out g PRF h P (S @ INT32_BE i)"
| "U_iter g PRF h P S i (Suc k) =
     (case U_iter g PRF h P S i k of None \<Rightarrow> None | Some u \<Rightarrow> PRF_out g PRF h P u)"

fun T_acc ::
  "gcry \<Rightarrow> int \<Rightarrow> nat \<Rightarrow> byte list \<Rightarrow> byte list \<Rightarrow> nat \<Rightarrow> nat \<Rightarrow> byte list option" where
  "T_acc g PRF h P S i 0 = Some (replicate h 0)"
| "T_acc g PRF h P S i (Suc n) =
     (case T_acc g PRF h P S i n of
        None \<Rightarrow> None
      | Some t \<Rightarrow>
         (case U_iter g PRF h P S i n of
            None \<Rightarrow> None
          | Some u \<Rightarrow> Some (map2 (XOR) t u)))"

definition T_block ::
  "gcry \<Rightarrow> int \<Rightarrow> nat \<Rightarrow> byte list \<Rightarrow> byte list \<Rightarrow> nat \<Rightarrow> nat \<Rightarrow> byte list option" where
  "T_block g PRF h P S c i = T_acc g PRF h P S i c"

fun blocks_upto ::
  "gcry \<Rightarrow> int \<Rightarrow> nat \<Rightarrow> byte list \<Rightarrow> byte list \<Rightarrow> nat \<Rightarrow> nat \<Rightarrow> byte list option" where
  "blocks_upto g PRF h P S c 0 = Some []"
| "blocks_upto g PRF h P S c (Suc n) =
     (case blocks_upto g PRF h P S c n of
        None \<Rightarrow> None
      | Some bs \<Rightarrow>
         (case T_block g PRF h P S c (Suc n) of
            None \<Rightarrow> None
          | Some t \<Rightarrow> Some (bs @ t)))"

definition ceil_div :: "nat \<Rightarrow> nat \<Rightarrow> nat" where
  "ceil_div d h = (d + h - 1) div h"

definition pbkdf2_spec ::
  "gcry \<Rightarrow> int \<Rightarrow> byte list \<Rightarrow> byte list \<Rightarrow> nat \<Rightarrow> nat \<Rightarrow> byte list option" where
  "pbkdf2_spec g PRF P S c dkLen =
     (let h = unat (md_get_algo_dlen g PRF) in
      map_option (take dkLen) (blocks_upto g PRF h P S c (ceil_div dkLen h)))"

text \<open>Memory \<open>m\<close> with the bytes \<open>bs\<close> stored from offset 0.\<close>

definition store_bytes :: "(nat \<Rightarrow> byte) \<Rightarrow> byte list \<Rightarrow> (nat \<Rightarrow> byte)" where
  "store_bytes m bs = (\<lambda>j. if j < length bs then bs ! j else m j)"

subsection \<open>Reading a result\<close>

definition rc_of :: "flow \<Rightarrow> pkcs5_rc option" where
  "rc_of f = (case f of Return rc st \<Rightarrow> Some rc | _ \<Rightarrow> None)"

definition state_of :: "flow \<Rightarrow> state" where
  "state_of f = (case f of Next st \<Rightarrow> st | Return rc st \<Rightarrow> st | OutOfFuel st \<Rightarrow> st)"

subsection \<open>Concrete libraries and inputs\<close>

text \<open>
  A small keyed hash whose digest depends on the key, on the message and on the position
  of the byte; a library around it with digest length \<open>h\<close> in which nothing fails; the
  same library with keying that fails, and with a context that cannot be opened; and one
  whose digest read yields \<^verbatim>\<open>NULL\<close> for the message of the second block.
\<close>

definition toy_hmac :: "int \<Rightarrow> byte list \<Rightarrow> byte list \<Rightarrow> (nat \<Rightarrow> byte) option" where
  "toy_hmac a key bs = Some (\<lambda>k. of_nat k + sum_list key + 3 * sum_list bs)"

definition lib_ok :: "uint \<Rightarrow> gcry" where
  "lib_ok h =
     \<lparr>md_get_algo_dlen = (\<lambda>a. h), md_open_err = (\<lambda>a. False), md_setkey_rc = (\<lambda>k. False),
      md_hmac = toy_hmac, alloca_null = (\<lambda>n. False)\<rparr>"

definition lib_nokey :: gcry where
  "lib_nokey = (lib_ok 2)\<lparr>md_setkey_rc := (\<lambda>k. True)\<rparr>"


definition password :: "byte list" where
  "password = [1, 2]"

definition salt_bytes :: "byte list" where
  "salt_bytes = [3]"

definition lib_fail2 :: gcry where
  "lib_fail2 =
     (lib_ok 2)\<lparr>md_hmac := (\<lambda>a key bs. if bs = salt_bytes @ [0, 0, 0, 2] then None else toy_hmac a key bs)\<rparr>"

definition state_a :: state where
  "state_a = \<lparr>DK = (\<lambda>k. 0), U = (\<lambda>k. 170), T = (\<lambda>k. 85),
          prf_hd = \<lparr>hd_key = [], hd_buf = []\<rparr>, md_live = 0\<rparr>"

definition state_b :: state where
  "state_b = \<lparr>DK = (\<lambda>k. 255), U = (\<lambda>k. of_nat k), T = (\<lambda>k. 7),
          prf_hd = \<lparr>hd_key = [9], hd_buf = [9, 9]\<rparr>, md_live = 4\<rparr>"

section \<open>Lemmas\<close>

subsection \<open>Words and bytes\<close>

lemma xor_loop_from:
  "xor_loop k hLen t u = (\<lambda>j. if unat k \<le> j \<and> j < unat hLen then t j XOR u j else t j)"
proof (induction k hLen t u rule: xor_loop.induct)
  case (1 k hLen t u)
  show ?case
  proof (cases "k < hLen")
    case True
    then have "k \<noteq> - 1"
      by (metis word_n1_ge not_less)
    then have suc: "unat (k + 1) = Suc (unat k)"
      by (metis add.commute unatSuc add_eq_0_iff2)
    from True have lt: "unat k < unat hLen"
      by (simp add: word_less_nat_alt)
    have "xor_loop k hLen t u = xor_loop (k + 1) hLen (t(unat k := t (unat k) XOR u (unat k))) u"
      using True by (subst xor_loop.simps) simp
    also have "\<dots> = (\<lambda>j. if unat k \<le> j \<and> j < unat hLen then t j XOR u j else t j)"
      unfolding 1 [OF True] suc using lt by (auto simp: fun_eq_iff)
    finally show ?thesis .
  next
    case False
    then have "\<not> unat k < unat hLen"
      by (simp add: word_less_nat_alt)
    with False show ?thesis
      by (subst xor_loop.simps) (auto simp: fun_eq_iff)
  qed
qed

lemma xor_loop_0: "xor_loop 0 hLen t u = (\<lambda>j. if j < unat hLen then t j XOR u j else t j)"
  by (simp add: xor_loop_from)


lemma iteration_None:
  assumes "step_digest g a P S hLen i u st = None"
  shows "\<exists>st'. iteration g a P S hLen i u st = Return PKCS5_INVALID_PRF st' \<and>
           DK st' = DK st \<and> md_live st' = md_live st"
  using assms
  by (auto simp: step_digest_def iteration_def Let_def gcry_md_setkey_def gcry_md_reset_def
      gcry_md_write_def gcry_md_read_def split: if_splits)

lemma iteration_Some:
  assumes "step_digest g a P S hLen i u st = Some p"
  shows "\<exists>st'. iteration g a P S hLen i u st = Next st' \<and>
           DK st' = DK st \<and> md_live st' = md_live st \<and>
           U st' = memcpy (U st) 0 p (unat hLen) \<and>
           T st' = (\<lambda>j. if j < unat hLen then T st j XOR p j else T st j)"
  using assms
  by (auto simp: step_digest_def iteration_def Let_def gcry_md_setkey_def gcry_md_reset_def
      gcry_md_write_def gcry_md_read_def xor_loop_0 memcpy_def fun_eq_iff split: if_splits)



lemma unat_and_255: "unat (w AND 255 :: uint) = unat w mod 256"
proof -
  have "w AND 255 = take_bit 8 w"
    by (simp add: take_bit_eq_mask mask_eq_exp_minus_1)
  then have "w AND 255 = w mod 256"
    by (simp add: take_bit_eq_mod)
  then show ?thesis
    by (simp add: unat_mod)
qed

lemma unat_drop_bit_div: "unat (drop_bit n (w::uint)) = unat w div 2 ^ n"
  by (metis unat_drop_bit_eq drop_bit_eq_div)

lemma octet: "(ucast (drop_bit n (w :: uint) AND 255) :: byte) = of_nat (unat w div 2 ^ n mod 256)"
proof -
  have "(ucast (drop_bit n w AND 255) :: byte) = of_nat (unat (drop_bit n w AND 255))"
    by simp
  also have "\<dots> = of_nat (unat w div 2 ^ n mod 256)"
    by (simp only: unat_and_255 unat_drop_bit_div)
  finally show ?thesis .
qed

lemma int_octets_BE: "int_octets i = INT32_BE (unat i)"
  using octet [of 24 i] octet [of 16 i] octet [of 8 i] octet [of 0 i]
  by (simp add: int_octets_def INT32_BE_def)



lemma div_less_plus_mult:
  fixes x h q :: nat
  shows "x < h \<Longrightarrow> (x + q * h) div h = q"
  by simp

lemma ceil_div_nat:
  fixes d h :: nat
  assumes "0 < h"
  shows "(d + h - 1) div h = d div h + (if d mod h = 0 then 0 else 1)"
proof -
  define q r where "q = d div h" and "r = d mod h"
  have d: "d = r + q * h" and r: "r < h"
    using assms by (simp_all add: q_def r_def)
  show ?thesis
  proof (cases "r = 0")
    case True
    then have eq: "d + h - 1 = (h - 1) + q * h"
      using d assms by simp
    have "((h - 1) + q * h) div h = q"
      using assms by (intro div_less_plus_mult) simp
    with True eq show ?thesis
      by (simp only: q_def r_def) simp
  next
    case False
    then have eq: "d + h - 1 = (r - 1) + (q + 1) * h"
      using d by simp
    have "((r - 1) + (q + 1) * h) div h = q + 1"
      using r by (intro div_less_plus_mult) simp
    with False eq show ?thesis
      by (simp only: q_def r_def) simp
  qed
qed

lemma block_count_unat:
  assumes "hLen \<noteq> 0"
  shows "unat (block_count dkLen hLen) = ceil_div (unat dkLen) (unat hLen)"
proof -
  let ?d = "unat dkLen" and ?h = "unat hLen"
  have h: "0 < ?h"
    using assms by (simp add: unat_gt_0)
  have dv: "unat (dkLen div hLen) = ?d div ?h"
    by (simp add: unat_div)
  have md: "dkLen mod hLen = 0 \<longleftrightarrow> ?d mod ?h = 0"
    by (simp add: unat_mod flip: unat_eq_zero)
  show ?thesis
  proof (cases "?d mod ?h = 0")
    case True
    then show ?thesis
      using md dv ceil_div_nat [OF h, of ?d] by (simp add: block_count_def ceil_div_def)
  next
    case False
    then have "2 \<le> ?h"
      using h by (cases "?h = 1") auto
    then have "?d div ?h \<le> ?d div 2"
      by (simp add: div_le_mono2)
    moreover have "?d < 2 ^ 32"
      using unsigned_less [of dkLen, where ?'a = nat] by simp
    ultimately have "unat (dkLen div hLen) + unat (1 :: uint) < 2 ^ LENGTH(32)"
      using dv by simp
    then have "unat (dkLen div hLen + 1) = ?d div ?h + 1"
      using dv by (simp add: unat_add_lem [THEN iffD1])
    then show ?thesis
      using False md ceil_div_nat [OF h, of ?d] by (simp add: block_count_def ceil_div_def)
  qed
qed

lemma ceil_bounds:
  fixes d h :: nat
  assumes "0 < h" "0 < d"
  shows "0 < (d + h - 1) div h"
    and "((d + h - 1) div h - 1) * h < d"
    and "d \<le> (d + h - 1) div h * h"
proof -
  let ?L = "(d + h - 1) div h"
  have L: "?L = d div h + (if d mod h = 0 then 0 else 1)"
    by (rule ceil_div_nat [OF assms(1)])
  have dm: "d = d div h * h + d mod h"
    by simp
  show "0 < ?L"
  proof (cases "d mod h = 0")
    case True
    then have "h \<le> d" using assms by (auto simp: mod_eq_0_iff_dvd dest: dvd_imp_le)
    then have "0 < d div h" using assms by (simp add: div_greater_zero_iff)
    with L True show ?thesis by simp
  next
    case False
    with L show ?thesis by simp
  qed
  show "(?L - 1) * h < d"
  proof (cases "d mod h = 0")
    case True
    then have "d div h * h = d" by (metis dm add.right_neutral)
    moreover have "(d div h - 1) * h = d div h * h - h" by (simp add: diff_mult_distrib)
    ultimately show ?thesis using L True assms by simp
  next
    case False
    then have "d div h * h < d" by (metis dm add.commute less_add_same_cancel2 neq0_conv)
    with L False show ?thesis by simp
  qed
  show "d \<le> ?L * h"
  proof (cases "d mod h = 0")
    case True
    then have "d div h * h = d" by (metis dm add.right_neutral)
    with L True show ?thesis by simp
  next
    case False
    have "d mod h < h" using assms by simp
    then have "d < d div h * h + h" by (metis dm add_less_cancel_left)
    with L False show ?thesis by simp
  qed
qed

lemma last_len_unat:
  assumes "hLen \<noteq> 0" "dkLen \<noteq> 0"
  shows "(unat (block_count dkLen hLen) - 1) * unat hLen < unat dkLen"
    and "unat dkLen \<le> unat (block_count dkLen hLen) * unat hLen"
    and "unat (last_len dkLen hLen) = unat dkLen - (unat (block_count dkLen hLen) - 1) * unat hLen"
    and "0 < unat (block_count dkLen hLen)"
proof -
  let ?d = "unat dkLen" and ?h = "unat hLen" and ?l = "block_count dkLen hLen"
  have h: "0 < ?h" and d: "0 < ?d"
    using assms by (simp_all add: unat_gt_0)
  have l: "unat ?l = (?d + ?h - 1) div ?h"
    using block_count_unat [OF assms(1)] by (simp add: ceil_div_def)
  show pos: "0 < unat ?l" and lt: "(unat ?l - 1) * ?h < ?d" and "?d \<le> unat ?l * ?h"
    using ceil_bounds [OF h d] by (simp_all only: l)
  from pos have "?l \<noteq> 0"
    by (simp add: unat_gt_0)
  then have m1: "unat (?l - 1) = unat ?l - 1"
    by (simp add: unat_minus_one)
  have "?d < 2 ^ LENGTH(32)"
    by (rule unsigned_less)
  with lt m1 have "unat (?l - 1) * unat hLen < 2 ^ LENGTH(32)"
    by simp
  then have mul: "unat ((?l - 1) * hLen) = (unat ?l - 1) * ?h"
    using m1 by (simp add: unat_mult_lem [THEN iffD1])
  with lt have "(?l - 1) * hLen \<le> dkLen"
    by (simp add: word_le_nat_alt)
  then show "unat (last_len dkLen hLen) = ?d - (unat ?l - 1) * ?h"
    using mul by (simp add: last_len_def unat_sub)
qed

subsection \<open>The specification functions\<close>

lemma PRF_out_length: "PRF_out g a h key msg = Some d \<Longrightarrow> length d = h"
  by (auto simp: PRF_out_def bytes_at_def split: if_splits)

lemma U_iter_length: "U_iter g a h P S i k = Some u \<Longrightarrow> length u = h"
  by (cases k) (auto simp: PRF_out_length split: option.splits)

lemma T_acc_length: "T_acc g a h P S i n = Some t \<Longrightarrow> length t = h"
proof (induction n arbitrary: t)
  case 0
  then show ?case by auto
next
  case (Suc n)
  then show ?case
    by (auto split: option.splits dest: U_iter_length)
qed

lemma T_acc_None_Suc: "T_acc g a h P S i n = None \<Longrightarrow> T_acc g a h P S i (Suc n) = None"
  by simp

lemma T_acc_None_mono:
  "T_acc g a h P S i n = None \<Longrightarrow> n \<le> m \<Longrightarrow> T_acc g a h P S i m = None"
  by (induction m) (auto simp: le_Suc_eq)

lemma T_acc_U_iter_None:
  "U_iter g a h P S i k = None \<Longrightarrow> k < m \<Longrightarrow> T_acc g a h P S i m = None"
  by (rule T_acc_None_mono [of _ _ _ _ _ _ "Suc k"]) (auto split: option.splits)

lemma T_block_length: "T_block g a h P S c i = Some t \<Longrightarrow> length t = h"
  by (simp add: T_block_def T_acc_length)

lemma blocks_upto_length: "blocks_upto g a h P S c n = Some bs \<Longrightarrow> length bs = n * h"
proof (induction n arbitrary: bs)
  case 0
  then show ?case by simp
next
  case (Suc n)
  then show ?case
    by (auto split: option.splits dest: T_block_length)
qed

lemma blocks_upto_None_mono:
  "blocks_upto g a h P S c n = None \<Longrightarrow> n \<le> m \<Longrightarrow> blocks_upto g a h P S c m = None"
  by (induction m) (auto simp: le_Suc_eq)

lemma blocks_upto_prefix:
  "blocks_upto g a h P S c m = Some bs' \<Longrightarrow> n \<le> m \<Longrightarrow>
   blocks_upto g a h P S c n = Some (take (n * h) bs')"
proof (induction m arbitrary: bs')
  case 0
  then show ?case by simp
next
  case (Suc m)
  from Suc.prems(1) obtain bs t where
    bs: "blocks_upto g a h P S c m = Some bs" and t: "T_block g a h P S c (Suc m) = Some t"
    and bs': "bs' = bs @ t"
    by (auto split: option.splits)
  show ?case
  proof (cases "n = Suc m")
    case True
    with Suc.prems(1) blocks_upto_length [OF Suc.prems(1)] show ?thesis by simp
  next
    case False
    with Suc.prems(2) have nm: "n \<le> m" by simp
    then have "n * h \<le> length bs"
      using blocks_upto_length [OF bs] by simp
    then have "take (n * h) bs' = take (n * h) bs"
      by (simp add: bs')
    with Suc.IH [OF bs nm] show ?thesis by simp
  qed
qed

lemma bytes_at_length [simp]: "length (bytes_at m n) = n"
  by (simp add: bytes_at_def)

lemma bytes_at_nth [simp]: "j < n \<Longrightarrow> bytes_at m n ! j = m j"
  by (simp add: bytes_at_def)

lemma bytes_at_cong: "(\<And>j. j < n \<Longrightarrow> m j = m' j) \<Longrightarrow> bytes_at m n = bytes_at m' n"
  by (simp add: bytes_at_def)

lemma bytes_at_memset: "bytes_at (memset m v n) n = replicate n v"
  by (simp add: list_eq_iff_nth_eq memset_def)

lemma bytes_at_memcpy0: "bytes_at (memcpy m 0 p n) n = bytes_at p n"
  by (simp add: list_eq_iff_nth_eq memcpy_def)

lemma bytes_at_xor:
  "bytes_at (\<lambda>j. if j < n then t j XOR p j else t j) n = map2 (XOR) (bytes_at t n) (bytes_at p n)"
  by (simp add: list_eq_iff_nth_eq)

text \<open>What the pass number \<open>k + 1\<close> of block \<open>i\<close> obtains is the iterate \<open>U_{k+1}\<close>.\<close>

lemma step_digest_U_iter:
  assumes "\<not> alloca_null g (length S + 4)"
    and "unat u = Suc k"
    and "0 < k \<Longrightarrow> U_iter g a (unat hLen) P S (unat i) (k - 1) = Some (bytes_at (U st) (unat hLen))"
  shows "U_iter g a (unat hLen) P S (unat i) k =
           map_option (\<lambda>p. bytes_at p (unat hLen)) (step_digest g a P S hLen i u st)"
proof (cases k)
  case 0
  with assms(2) have "u = 1"
    by (simp add: word_unat_eq_iff)
  with 0 assms(1) show ?thesis
    by (simp add: step_digest_def PRF_out_def int_octets_BE)
next
  case (Suc k')
  with assms(2) have "u \<noteq> 1"
    by (auto simp: word_unat_eq_iff)
  with Suc assms(3) show ?thesis
    by (simp add: step_digest_def PRF_out_def)
qed

subsection \<open>The inner loop\<close>

lemma unat_inc:
  fixes u c :: uint
  assumes "c \<noteq> - 1" "u \<le> c"
  shows "unat (u + 1) = Suc (unat u)"
proof -
  have "u \<noteq> - 1"
  proof
    assume "u = - 1"
    with assms(2) have "c = - 1"
      by (metis word_n1_ge antisym)
    with assms(1) show False by simp
  qed
  then show ?thesis
    by (metis add.commute unatSuc add_eq_0_iff2)
qed

lemma inner_loop_frame:
  "case inner_loop fuel g a P S hLen c i u st of
     Next st' \<Rightarrow> DK st' = DK st \<and> md_live st' = md_live st
   | Return rc st' \<Rightarrow> rc = PKCS5_INVALID_PRF \<and> DK st' = DK st \<and> md_live st' = md_live st
   | OutOfFuel st' \<Rightarrow> DK st' = DK st \<and> md_live st' = md_live st"
proof (induction fuel arbitrary: u st)
  case 0
  show ?case
    by (subst inner_loop.simps) simp
next
  case (Suc n)
  show ?case
  proof (cases "step_digest g a P S hLen i u st")
    case None
    from iteration_None [OF None] show ?thesis
      by (subst inner_loop.simps) auto
  next
    case (Some p)
    from iteration_Some [OF Some] obtain st1 where
      it: "iteration g a P S hLen i u st = Next st1"
      and fr: "DK st1 = DK st" "md_live st1 = md_live st"
      by blast
    from Suc [where u = "u + 1" and st = st1] it fr show ?thesis
      by (subst inner_loop.simps) (auto split: flow.splits)
  qed
qed

lemma inner_loop_inv:
  assumes "c \<noteq> - 1" and "\<not> alloca_null g (length S + 4)"
    and "unat u = Suc k" and "k \<le> unat c"
    and "T_acc g a (unat hLen) P S (unat i) k = Some (bytes_at (T st) (unat hLen))"
    and "0 < k \<Longrightarrow> U_iter g a (unat hLen) P S (unat i) (k - 1) = Some (bytes_at (U st) (unat hLen))"
  shows "case inner_loop fuel g a P S hLen c i u st of
     Next st' \<Rightarrow> T_acc g a (unat hLen) P S (unat i) (unat c) = Some (bytes_at (T st') (unat hLen))
   | Return rc st' \<Rightarrow> T_acc g a (unat hLen) P S (unat i) (unat c) = None
   | OutOfFuel st' \<Rightarrow> fuel < unat c - k"
  using assms(3-)
proof (induction fuel arbitrary: u k st)
  case 0
  show ?case
  proof (cases "u \<le> c")
    case True
    then have "Suc k \<le> unat c"
      using "0.prems"(1) by (simp add: word_le_nat_alt)
    with True show ?thesis
      by (subst inner_loop.simps) simp
  next
    case False
    then have "k = unat c"
      using "0.prems"(1,2) by (simp add: word_le_nat_alt)
    with False "0.prems"(3) show ?thesis
      by (subst inner_loop.simps) simp
  qed
next
  case (Suc n)
  let ?h = "unat hLen"
  show ?case
  proof (cases "u \<le> c")
    case False
    then have "k = unat c"
      using Suc.prems(1,2) by (simp add: word_le_nat_alt)
    with False Suc.prems(3) show ?thesis
      by (subst inner_loop.simps) simp
  next
    case True
    then have kc: "Suc k \<le> unat c"
      using Suc.prems(1) by (simp add: word_le_nat_alt)
    have Uk: "U_iter g a ?h P S (unat i) k =
        map_option (\<lambda>p. bytes_at p ?h) (step_digest g a P S hLen i u st)"
      by (rule step_digest_U_iter [OF assms(2) Suc.prems(1) Suc.prems(4)])
    show ?thesis
    proof (cases "step_digest g a P S hLen i u st")
      case None
      with Uk have "U_iter g a ?h P S (unat i) k = None" by simp
      then have "T_acc g a ?h P S (unat i) (unat c) = None"
        using kc by (intro T_acc_U_iter_None [of _ _ _ _ _ _ k]) simp_all
      with iteration_None [OF None] True show ?thesis
        by (subst inner_loop.simps) auto
    next
      case (Some p)
      from iteration_Some [OF Some] obtain st1 where
        it: "iteration g a P S hLen i u st = Next st1"
        and U1: "U st1 = memcpy (U st) 0 p ?h"
        and T1: "T st1 = (\<lambda>j. if j < ?h then T st j XOR p j else T st j)"
        by blast
      from Uk Some have Uk': "U_iter g a ?h P S (unat i) k = Some (bytes_at p ?h)" by simp
      have u1: "unat (u + 1) = Suc (Suc k)"
        using unat_inc [OF assms(1) True] Suc.prems(1) by simp
      have T': "T_acc g a ?h P S (unat i) (Suc k) = Some (bytes_at (T st1) ?h)"
        using Suc.prems(3) Uk' by (simp add: T1 bytes_at_xor)
      have U': "U_iter g a ?h P S (unat i) (Suc k - 1) = Some (bytes_at (U st1) ?h)"
        using Uk' by (simp add: U1 bytes_at_memcpy0)
      have "case inner_loop n g a P S hLen c i (u + 1) st1 of
          Next st' \<Rightarrow> T_acc g a ?h P S (unat i) (unat c) = Some (bytes_at (T st') ?h)
        | Return rc st' \<Rightarrow> T_acc g a ?h P S (unat i) (unat c) = None
        | OutOfFuel st' \<Rightarrow> n < unat c - Suc k"
        by (rule Suc.IH [OF u1 kc T' U'])
      with it True show ?thesis
        by (subst inner_loop.simps) (auto split: flow.splits)
    qed
  qed
qed

subsection \<open>The outer loop\<close>

lemma memcpy_store_bytes:
  assumes "cnt \<le> h"
  shows "memcpy (store_bytes m bs) (length bs) t cnt = store_bytes m (bs @ take cnt (bytes_at t h))"
  using assms by (auto simp: memcpy_def store_bytes_def fun_eq_iff nth_append)

lemma outer_loop_inv:
  fixes d :: nat
  assumes c: "c \<noteq> - 1" and l: "l \<noteq> - 1" and al: "\<not> alloca_null g (length S + 4)"
    and h: "0 < unat hLen"
    and lo: "(unat l - 1) * unat hLen < d" and hi: "d \<le> unat l * unat hLen"
    and r: "unat r = d - (unat l - 1) * unat hLen" and d: "d < 2 ^ 32"
    and "unat i = Suc n" and "n \<le> unat l"
    and "blocks_upto g a (unat hLen) P S (unat c) n = Some bs"
    and "DK st = store_bytes D0 (take d bs)" and "md_live st = m"
  shows "case outer_loop fo fi g a P S hLen c l r i st of
     Next st' \<Rightarrow>
       (\<exists>bs'. blocks_upto g a (unat hLen) P S (unat c) (unat l) = Some bs' \<and>
              DK st' = store_bytes D0 (take d bs')) \<and> md_live st' = m
   | Return rc st' \<Rightarrow>
       rc = PKCS5_INVALID_PRF \<and> blocks_upto g a (unat hLen) P S (unat c) (unat l) = None \<and>
       md_live st' = m \<and>
       (\<exists>n' bs'. n' < unat l \<and> blocks_upto g a (unat hLen) P S (unat c) n' = Some bs' \<and>
                 DK st' = store_bytes D0 bs')
   | OutOfFuel st' \<Rightarrow>
       (fo < unat l - n \<or> fi < unat c) \<and> md_live st' = m \<and>
       (\<exists>n' bs'. n' \<le> unat l \<and> blocks_upto g a (unat hLen) P S (unat c) n' = Some bs' \<and>
                 DK st' = store_bytes D0 (take d bs'))"
  using assms(9-)
proof (induction fo arbitrary: i n bs st)
  case 0
  show ?case
  proof (cases "i \<le> l")
    case True
    then have nl: "Suc n \<le> unat l"
      using "0.prems"(1) by (simp add: word_le_nat_alt)
    have "\<exists>n' bs'. n' \<le> unat l \<and> blocks_upto g a (unat hLen) P S (unat c) n' = Some bs' \<and>
        DK st = store_bytes D0 (take d bs')"
      using nl "0.prems"(3,4) by (intro exI [of _ n] exI [of _ bs]) simp
    with True nl "0.prems"(5) show ?thesis
      by (subst outer_loop.simps) simp
  next
    case False
    then have "n = unat l"
      using "0.prems"(1,2) by (simp add: word_le_nat_alt)
    with False "0.prems" show ?thesis
      by (subst outer_loop.simps) auto
  qed
next
  case (Suc fo')
  let ?h = "unat hLen" and ?L = "unat l"
  note bl = Suc.prems(3)
  show ?case
  proof (cases "i \<le> l")
    case False
    then have "n = ?L"
      using Suc.prems(1,2) by (simp add: word_le_nat_alt)
    with False Suc.prems show ?thesis
      by (subst outer_loop.simps) auto
  next
    case True
    then have nl: "Suc n \<le> ?L"
      using Suc.prems(1) by (simp add: word_le_nat_alt)
    have len: "length bs = n * ?h"
      by (rule blocks_upto_length [OF bl])
    have "n * ?h \<le> (?L - 1) * ?h"
      using nl by (intro mult_le_mono1) simp
    then have nd: "n * ?h < d" using lo by (rule le_less_trans)
    with len Suc.prems(4) have DKst: "DK st = store_bytes D0 bs" by simp
    let ?st1 = "st\<lparr>T := memset (T st) 0 ?h\<rparr>"
    let ?res = "inner_loop fi g a P S hLen c i 1 ?st1"
    have fr: "case ?res of
        Next st' \<Rightarrow> DK st' = DK ?st1 \<and> md_live st' = md_live ?st1
      | Return rc st' \<Rightarrow> rc = PKCS5_INVALID_PRF \<and> DK st' = DK ?st1 \<and> md_live st' = md_live ?st1
      | OutOfFuel st' \<Rightarrow> DK st' = DK ?st1 \<and> md_live st' = md_live ?st1"
      by (rule inner_loop_frame)
    have "T_acc g a ?h P S (unat i) 0 = Some (bytes_at (T ?st1) ?h)"
      by (simp add: bytes_at_memset)
    then have inv: "case ?res of
        Next st' \<Rightarrow> T_acc g a ?h P S (unat i) (unat c) = Some (bytes_at (T st') ?h)
      | Return rc st' \<Rightarrow> T_acc g a ?h P S (unat i) (unat c) = None
      | OutOfFuel st' \<Rightarrow> fi < unat c - 0"
      by (intro inner_loop_inv [OF c al]) simp_all
    show ?thesis
    proof (cases ?res)
      case (Return rc st')
      with inv have "T_block g a ?h P S (unat c) (Suc n) = None"
        by (simp add: T_block_def Suc.prems(1))
      then have "blocks_upto g a ?h P S (unat c) (Suc n) = None"
        by (simp split: option.splits)
      then have "blocks_upto g a ?h P S (unat c) ?L = None"
        using nl by (rule blocks_upto_None_mono)
      moreover have "\<exists>n' bs'. n' < ?L \<and> blocks_upto g a ?h P S (unat c) n' = Some bs' \<and>
          DK st = store_bytes D0 bs'"
        using nl bl DKst by (intro exI [of _ n] exI [of _ bs]) simp
      ultimately show ?thesis
        using Return fr True Suc.prems(5) by (subst outer_loop.simps) simp
    next
      case (OutOfFuel st')
      have "\<exists>n' bs'. n' \<le> ?L \<and> blocks_upto g a ?h P S (unat c) n' = Some bs' \<and>
          DK st = store_bytes D0 (take d bs')"
        using nl bl Suc.prems(4) by (intro exI [of _ n] exI [of _ bs]) simp
      then show ?thesis
        using OutOfFuel fr inv True Suc.prems(5) by (subst outer_loop.simps) simp
    next
      case (Next st2)
      define t where "t = bytes_at (T st2) ?h"
      from Next inv have Tb: "T_block g a ?h P S (unat c) (Suc n) = Some t"
        by (simp add: T_block_def Suc.prems(1) t_def)
      then have bl': "blocks_upto g a ?h P S (unat c) (Suc n) = Some (bs @ t)"
        using bl by simp
      from Next fr have DK2: "DK st2 = store_bytes D0 bs" and live2: "md_live st2 = m"
        using DKst Suc.prems(5) by simp_all
      have "i \<noteq> 0"
        using Suc.prems(1) by (auto simp: unat_eq_zero [symmetric])
      then have "unat (i - 1) = n"
        using Suc.prems(1) by (simp add: unat_minus_one)
      moreover from nd d have "n * ?h < 2 ^ LENGTH(32)" by simp
      ultimately have off: "unat ((i - 1) * hLen) = length bs"
        using len by (simp add: unat_mult_lem [THEN iffD1])
      define cnt where "cnt = unat (if i = l then r else hLen)"
      have il: "i = l \<longleftrightarrow> Suc n = ?L"
        using Suc.prems(1) by (auto simp: word_unat_eq_iff)
      have cnt_le: "cnt \<le> ?h" and tk: "take d (bs @ t) = bs @ take cnt t"
      proof -
        have lt: "length t = ?h" by (simp add: t_def)
        show "cnt \<le> ?h"
        proof (cases "Suc n = ?L")
          case True
          have "cnt = d - n * ?h" using il r True [symmetric] by (simp add: cnt_def)
          moreover have "d \<le> n * ?h + ?h" using hi True [symmetric] by simp
          ultimately show ?thesis by simp
        next
          case False
          then show ?thesis using il by (simp add: cnt_def)
        qed
        show "take d (bs @ t) = bs @ take cnt t"
        proof (cases "Suc n = ?L")
          case True
          have "cnt = d - n * ?h" using il r True [symmetric] by (simp add: cnt_def)
          then show ?thesis using nd len by simp
        next
          case False
          then have "Suc (Suc n) \<le> ?L" using nl by simp
          then have "Suc n * ?h \<le> (?L - 1) * ?h"
            by (intro mult_le_mono1) simp
          then have "Suc n * ?h < d" using lo by (rule le_less_trans)
          then have "?h \<le> d - n * ?h" by simp
          moreover have "cnt = ?h" using False il by (simp add: cnt_def)
          ultimately show ?thesis using nd len lt by simp
        qed
      qed
      let ?st3 = "st2\<lparr>DK := memcpy (DK st2) (unat ((i - 1) * hLen)) (T st2)
                           (unat (if i = l then r else hLen))\<rparr>"
      have "DK ?st3 = memcpy (store_bytes D0 bs) (length bs) (T st2) cnt"
        by (simp add: DK2 off cnt_def)
      also have "\<dots> = store_bytes D0 (bs @ take cnt t)"
        unfolding t_def by (rule memcpy_store_bytes [OF cnt_le])
      also have "\<dots> = store_bytes D0 (take d (bs @ t))"
        by (simp only: tk)
      finally have DK3: "DK ?st3 = store_bytes D0 (take d (bs @ t))" .
      have i1: "unat (i + 1) = Suc (Suc n)"
        using unat_inc [OF l True] Suc.prems(1) by simp
      define res where "res = outer_loop fo' fi g a P S hLen c l r (i + 1) ?st3"
      have IH: "case res of
         Next st' \<Rightarrow>
           (\<exists>bs'. blocks_upto g a ?h P S (unat c) ?L = Some bs' \<and>
                  DK st' = store_bytes D0 (take d bs')) \<and> md_live st' = m
       | Return rc st' \<Rightarrow>
           rc = PKCS5_INVALID_PRF \<and> blocks_upto g a ?h P S (unat c) ?L = None \<and>
           md_live st' = m \<and>
           (\<exists>n' bs'. n' < ?L \<and> blocks_upto g a ?h P S (unat c) n' = Some bs' \<and>
                     DK st' = store_bytes D0 bs')
       | OutOfFuel st' \<Rightarrow>
           (fo' < ?L - Suc n \<or> fi < unat c) \<and> md_live st' = m \<and>
           (\<exists>n' bs'. n' \<le> ?L \<and> blocks_upto g a ?h P S (unat c) n' = Some bs' \<and>
                     DK st' = store_bytes D0 (take d bs'))"
        unfolding res_def using live2 by (intro Suc.IH [OF i1 nl bl' DK3]) simp
      have eq: "outer_loop (Suc fo') fi g a P S hLen c l r i st = res"
        unfolding res_def using True Next by (subst outer_loop.simps) simp
      show ?thesis
        unfolding eq using IH by (cases res) auto
    qed
  qed
qed

lemma outer_loop_frame:
  "case outer_loop fo fi g a P S hLen c l r i st of
     Next st' \<Rightarrow> md_live st' = md_live st
   | Return rc st' \<Rightarrow> rc = PKCS5_INVALID_PRF \<and> md_live st' = md_live st
   | OutOfFuel st' \<Rightarrow> md_live st' = md_live st"
proof (induction fo arbitrary: i st)
  case 0
  show ?case
    by (subst outer_loop.simps) simp
next
  case (Suc n)
  let ?st1 = "st\<lparr>T := memset (T st) 0 (unat hLen)\<rparr>"
  have fr: "case inner_loop fi g a P S hLen c i 1 ?st1 of
      Next st' \<Rightarrow> DK st' = DK ?st1 \<and> md_live st' = md_live ?st1
    | Return rc st' \<Rightarrow> rc = PKCS5_INVALID_PRF \<and> DK st' = DK ?st1 \<and> md_live st' = md_live ?st1
    | OutOfFuel st' \<Rightarrow> DK st' = DK ?st1 \<and> md_live st' = md_live ?st1"
    by (rule inner_loop_frame)
  show ?case
  proof (cases "inner_loop fi g a P S hLen c i 1 ?st1")
    case (Next st2)
    let ?st3 = "st2\<lparr>DK := memcpy (DK st2) (unat ((i - 1) * hLen)) (T st2)
                         (unat (if i = l then r else hLen))\<rparr>"
    define res where "res = outer_loop n fi g a P S hLen c l r (i + 1) ?st3"
    have IH: "case res of
        Next st' \<Rightarrow> md_live st' = md_live ?st3
      | Return rc st' \<Rightarrow> rc = PKCS5_INVALID_PRF \<and> md_live st' = md_live ?st3
      | OutOfFuel st' \<Rightarrow> md_live st' = md_live ?st3"
      unfolding res_def by (rule Suc)
    have eq: "outer_loop (Suc n) fi g a P S hLen c l r i st = (if i \<le> l then res else Next st)"
      unfolding res_def using Next by (subst outer_loop.simps) simp
    from Next fr have "md_live ?st3 = md_live st" by simp
    with IH show ?thesis
      unfolding eq by (cases res) auto
  next
    case (Return rc st')
    with fr show ?thesis
      by (subst outer_loop.simps) simp
  next
    case (OutOfFuel st')
    with fr show ?thesis
      by (subst outer_loop.simps) simp
  qed
qed

lemma not_too_long: "\<not> (4294967295 :: uint) < dkLen"
proof -
  have "(4294967295 :: uint) = - 1" by simp
  then show ?thesis
    by (simp only: word_order.extremum_strict not_False_eq_True)
qed

lemma pbkdf2_unfold:
  assumes "md_get_algo_dlen g a \<noteq> 0" "md_get_algo_dlen g a \<le> MAX_PRF_BLOCK_LEN"
    and "c \<noteq> 0" "dkLen \<noteq> 0"
  shows "gnutls_pkcs5_pbkdf2 fo fi g a P S c dkLen st =
     (case gcry_md_open g a st of
        None \<Rightarrow> Return PKCS5_INVALID_PRF st
      | Some st0 \<Rightarrow>
         (case outer_loop fo fi g a P S (md_get_algo_dlen g a) c
                 (block_count dkLen (md_get_algo_dlen g a))
                 (last_len dkLen (md_get_algo_dlen g a)) 1 st0 of
            Next st' \<Rightarrow> Return PKCS5_OK (gcry_md_close st')
          | other \<Rightarrow> other))"
  using assms not_too_long [of dkLen]
  by (simp add: gnutls_pkcs5_pbkdf2_def Let_def not_less [symmetric])

subsection \<open>The whole function\<close>

lemma rc_of_simps [simp]:
  "rc_of (Return rc st) = Some rc" "rc_of (Next st) = None" "rc_of (OutOfFuel st) = None"
  by (simp_all add: rc_of_def)

lemma state_of_simps [simp]:
  "state_of (Return rc st) = st" "state_of (Next st) = st" "state_of (OutOfFuel st) = st"
  by (simp_all add: state_of_def)

lemma rc_of_Some: "rc_of f = Some rc \<longleftrightarrow> (\<exists>st. f = Return rc st)"
  by (cases f) auto

lemma outer_loop_Return:
  assumes "outer_loop fo fi g a P S hLen c l r i st = Return rc st'"
  shows "rc = PKCS5_INVALID_PRF" and "md_live st' = md_live st"
  using outer_loop_frame [where fo = fo and fi = fi and g = g and a = a and P = P and S = S
      and hLen = hLen and c = c and l = l and r = r and i = i and st = st] assms by simp_all

lemma outer_loop_Next_live:
  assumes "outer_loop fo fi g a P S hLen c l r i st = Next st'"
  shows "md_live st' = md_live st"
  using outer_loop_frame [where fo = fo and fi = fi and g = g and a = a and P = P and S = S
      and hLen = hLen and c = c and l = l and r = r and i = i and st = st] assms by simp

lemma pbkdf2_rc_cases:
  assumes "gnutls_pkcs5_pbkdf2 fo fi g a P S c dkLen st = Return rc st'"
  shows "rc \<noteq> PKCS5_DERIVED_KEY_TOO_LONG"
proof (cases "md_get_algo_dlen g a \<noteq> 0 \<and> md_get_algo_dlen g a \<le> MAX_PRF_BLOCK_LEN \<and>
    c \<noteq> 0 \<and> dkLen \<noteq> 0")
  case False
  with assms show ?thesis
    by (auto simp: gnutls_pkcs5_pbkdf2_def Let_def split: if_splits)
next
  case True
  then show ?thesis
    using assms
    by (auto simp: pbkdf2_unfold split: option.splits flow.splits dest: outer_loop_Return(1))
qed

lemma store_bytes_Nil [simp]: "store_bytes m [] = m"
  by (simp add: store_bytes_def)

lemma pbkdf2_main:
  fixes g a dkLen c
  defines "hLen \<equiv> md_get_algo_dlen g a"
  defines "l \<equiv> block_count dkLen hLen"
  assumes valid: "hLen \<noteq> 0" "hLen \<le> MAX_PRF_BLOCK_LEN" "c \<noteq> 0" "dkLen \<noteq> 0"
    and c: "c \<noteq> - 1" and l: "l \<noteq> - 1"
    and al: "\<not> alloca_null g (length S + 4)" and op: "\<not> md_open_err g a"
  shows "case gnutls_pkcs5_pbkdf2 fo fi g a P S c dkLen st of
      Next st' \<Rightarrow> False
    | Return rc st' \<Rightarrow>
        (case blocks_upto g a (unat hLen) P S (unat c) (unat l) of
           Some bs \<Rightarrow>
             rc = PKCS5_OK \<and> DK st' = store_bytes (DK st) (take (unat dkLen) bs) \<and>
             md_live st' = md_live st
         | None \<Rightarrow>
             rc = PKCS5_INVALID_PRF \<and> md_live st' = Suc (md_live st) \<and>
             (\<exists>n' bs'. n' < unat l \<and>
                blocks_upto g a (unat hLen) P S (unat c) n' = Some bs' \<and>
                DK st' = store_bytes (DK st) bs'))
    | OutOfFuel st' \<Rightarrow>
        (fo < unat l \<or> fi < unat c) \<and>
        (\<exists>n' bs'. n' \<le> unat l \<and>
           blocks_upto g a (unat hLen) P S (unat c) n' = Some bs' \<and>
           DK st' = store_bytes (DK st) (take (unat dkLen) bs'))"
proof -
  let ?h = "unat hLen" and ?d = "unat dkLen"
  define st0 where "st0 = st\<lparr>prf_hd := \<lparr>hd_key = [], hd_buf = []\<rparr>, md_live := Suc (md_live st)\<rparr>"
  define res where "res = outer_loop fo fi g a P S hLen c l (last_len dkLen hLen) 1 st0"
  have opn: "gcry_md_open g a st = Some st0"
    using op by (simp add: gcry_md_open_def st0_def)
  have eq: "gnutls_pkcs5_pbkdf2 fo fi g a P S c dkLen st =
      (case res of Next st' \<Rightarrow> Return PKCS5_OK (gcry_md_close st') | other \<Rightarrow> other)"
    using pbkdf2_unfold [where g = g and a = a and c = c and dkLen = dkLen and fo = fo
        and fi = fi and P = P and S = S and st = st] valid opn
    by (simp add: hLen_def l_def res_def)
  have h: "0 < ?h"
    using valid(1) by (simp add: unat_gt_0)
  have d: "?d < 2 ^ 32"
    using unsigned_less [of dkLen, where ?'a = nat] by simp
  note ll = last_len_unat [OF valid(1) valid(4), folded l_def]
  have inv: "case res of
     Next st' \<Rightarrow>
       (\<exists>bs'. blocks_upto g a ?h P S (unat c) (unat l) = Some bs' \<and>
              DK st' = store_bytes (DK st) (take ?d bs')) \<and> md_live st' = Suc (md_live st)
   | Return rc st' \<Rightarrow>
       rc = PKCS5_INVALID_PRF \<and> blocks_upto g a ?h P S (unat c) (unat l) = None \<and>
       md_live st' = Suc (md_live st) \<and>
       (\<exists>n' bs'. n' < unat l \<and> blocks_upto g a ?h P S (unat c) n' = Some bs' \<and>
                 DK st' = store_bytes (DK st) bs')
   | OutOfFuel st' \<Rightarrow>
       (fo < unat l - 0 \<or> fi < unat c) \<and> md_live st' = Suc (md_live st) \<and>
       (\<exists>n' bs'. n' \<le> unat l \<and> blocks_upto g a ?h P S (unat c) n' = Some bs' \<and>
                 DK st' = store_bytes (DK st) (take ?d bs'))"
    unfolding res_def
    by (rule outer_loop_inv [OF c l al h ll(1) ll(2) ll(3) d, where n = 0 and bs = "[]"])
       (simp_all add: st0_def)
  show ?thesis
    unfolding eq using inv by (cases res) (auto simp: gcry_md_close_def)
qed

lemma inner_loop_max_count:
  "inner_loop fuel g a P S hLen (- 1) i u st \<noteq> Next st'"
proof (induction fuel arbitrary: u st)
  case 0
  show ?case
    by (subst inner_loop.simps) simp
next
  case (Suc n)
  show ?case
  proof (cases "iteration g a P S hLen i u st")
    case (Next st1)
    with Suc [where u = "u + 1" and st = st1] show ?thesis
      by (subst inner_loop.simps) simp
  next
    case (Return rc st1)
    then show ?thesis
      by (subst inner_loop.simps) simp
  next
    case (OutOfFuel st1)
    then show ?thesis
      by (subst inner_loop.simps) simp
  qed
qed

lemma inner_loop_alloca_null:
  assumes "alloca_null g (length S + 4)" "c \<noteq> 0"
  shows "inner_loop fuel g a P S hLen c i 1 st \<noteq> Next st'"
proof -
  have le: "1 \<le> c"
    using assms(2) by (simp add: word_le_nat_alt unat_gt_0 Suc_le_eq)
  have "step_digest g a P S hLen i 1 st = None"
    using assms(1) by (simp add: step_digest_def)
  from iteration_None [OF this] le show ?thesis
    by (subst inner_loop.simps) (auto split: nat.splits)
qed

lemma inner_loop_block_None:
  assumes "c \<noteq> - 1" "\<not> alloca_null g (length S + 4)"
    and "T_block g a (unat hLen) P S (unat c) (unat i) = None"
  shows "inner_loop fuel g a P S hLen c i 1 (st\<lparr>T := memset (T st) 0 (unat hLen)\<rparr>) \<noteq> Next st'"
proof -
  let ?st1 = "st\<lparr>T := memset (T st) 0 (unat hLen)\<rparr>"
  have "T_acc g a (unat hLen) P S (unat i) 0 = Some (bytes_at (T ?st1) (unat hLen))"
    by (simp add: bytes_at_memset)
  then have "case inner_loop fuel g a P S hLen c i 1 ?st1 of
      Next st' \<Rightarrow> T_acc g a (unat hLen) P S (unat i) (unat c) = Some (bytes_at (T st') (unat hLen))
    | Return rc st' \<Rightarrow> T_acc g a (unat hLen) P S (unat i) (unat c) = None
    | OutOfFuel st' \<Rightarrow> fuel < unat c - 0"
    by (intro inner_loop_inv [OF assms(1,2)]) simp_all
  with assms(3) show ?thesis
    by (auto simp: T_block_def split: flow.splits)
qed

lemma outer_loop_first_block:
  assumes "i \<le> l"
    and "\<And>st'. inner_loop fi g a P S hLen c i 1 (st\<lparr>T := memset (T st) 0 (unat hLen)\<rparr>) \<noteq> Next st'"
  shows "case outer_loop fo fi g a P S hLen c l r i st of
      Next st' \<Rightarrow> False
    | Return rc st' \<Rightarrow> DK st' = DK st
    | OutOfFuel st' \<Rightarrow> DK st' = DK st"
proof (cases fo)
  case 0
  with assms(1) show ?thesis
    by (subst outer_loop.simps) simp
next
  case (Suc n)
  let ?st1 = "st\<lparr>T := memset (T st) 0 (unat hLen)\<rparr>"
  have fr: "case inner_loop fi g a P S hLen c i 1 ?st1 of
      Next st' \<Rightarrow> DK st' = DK ?st1 \<and> md_live st' = md_live ?st1
    | Return rc st' \<Rightarrow> rc = PKCS5_INVALID_PRF \<and> DK st' = DK ?st1 \<and> md_live st' = md_live ?st1
    | OutOfFuel st' \<Rightarrow> DK st' = DK ?st1 \<and> md_live st' = md_live ?st1"
    by (rule inner_loop_frame)
  show ?thesis
  proof (cases "inner_loop fi g a P S hLen c i 1 ?st1")
    case (Next st2)
    with assms(2) [of st2] show ?thesis by simp
  next
    case (Return rc st2)
    with fr Suc assms(1) show ?thesis
      by (subst outer_loop.simps) simp
  next
    case (OutOfFuel st2)
    with fr Suc assms(1) show ?thesis
      by (subst outer_loop.simps) simp
  qed
qed

lemma outer_loop_max_blocks:
  "outer_loop fo fi g a P S hLen c (- 1) r i st \<noteq> Next st'"
proof (induction fo arbitrary: i st)
  case 0
  show ?case
    by (subst outer_loop.simps) simp
next
  case (Suc n)
  show ?case
    by (subst outer_loop.simps) (auto split: flow.splits simp: Suc)
qed

lemma one_le_word: "(w :: uint) \<noteq> 0 \<Longrightarrow> 1 \<le> w"
  by (simp add: word_le_nat_alt unat_gt_0 Suc_le_eq)

lemma block_count_pos:
  assumes "hLen \<noteq> 0" "dkLen \<noteq> 0"
  shows "1 \<le> block_count dkLen hLen"
  using last_len_unat(4) [OF assms] by (simp add: word_le_nat_alt Suc_le_eq)

text \<open>A failure before the first block is complete leaves the output buffer untouched.\<close>

lemma pbkdf2_first_block:
  fixes g a dkLen c
  defines "hLen \<equiv> md_get_algo_dlen g a"
  assumes valid: "hLen \<noteq> 0" "hLen \<le> MAX_PRF_BLOCK_LEN" "c \<noteq> 0" "dkLen \<noteq> 0"
    and fail: "md_open_err g a \<or> alloca_null g (length S + 4) \<or> c = - 1 \<or>
               T_block g a (unat hLen) P S (unat c) 1 = None"
  shows "case gnutls_pkcs5_pbkdf2 fo fi g a P S c dkLen st of
      Next st' \<Rightarrow> False
    | Return rc st' \<Rightarrow> rc = PKCS5_INVALID_PRF \<and> DK st' = DK st
    | OutOfFuel st' \<Rightarrow> DK st' = DK st"
proof (cases "md_open_err g a")
  case True
  then show ?thesis
    using pbkdf2_unfold [where g = g and a = a and c = c and dkLen = dkLen and fo = fo
        and fi = fi and P = P and S = S and st = st] valid
    by (simp add: hLen_def gcry_md_open_def)
next
  case False
  define st0 where "st0 = st\<lparr>prf_hd := \<lparr>hd_key = [], hd_buf = []\<rparr>, md_live := Suc (md_live st)\<rparr>"
  define res where "res = outer_loop fo fi g a P S hLen c (block_count dkLen hLen)
      (last_len dkLen hLen) 1 st0"
  have opn: "gcry_md_open g a st = Some st0"
    using False by (simp add: gcry_md_open_def st0_def)
  have eq: "gnutls_pkcs5_pbkdf2 fo fi g a P S c dkLen st =
      (case res of Next st' \<Rightarrow> Return PKCS5_OK (gcry_md_close st') | other \<Rightarrow> other)"
    using pbkdf2_unfold [where g = g and a = a and c = c and dkLen = dkLen and fo = fo
        and fi = fi and P = P and S = S and st = st] valid opn
    by (simp add: hLen_def res_def)
  have nn: "inner_loop fi g a P S hLen c 1 1 (st0\<lparr>T := memset (T st0) 0 (unat hLen)\<rparr>) \<noteq> Next st'"
    for st'
  proof (cases "alloca_null g (length S + 4)")
    case True
    then show ?thesis by (rule inner_loop_alloca_null [OF _ valid(3)])
  next
    case al: False
    show ?thesis
    proof (cases "c = - 1")
      case True
      then show ?thesis by (simp add: inner_loop_max_count)
    next
      case c: False
      with al fail \<open>\<not> md_open_err g a\<close>
      have "T_block g a (unat hLen) P S (unat c) (unat (1 :: uint)) = None" by simp
      then show ?thesis by (rule inner_loop_block_None [OF c al])
    qed
  qed
  have "case res of
      Next st' \<Rightarrow> False
    | Return rc st' \<Rightarrow> DK st' = DK st0
    | OutOfFuel st' \<Rightarrow> DK st' = DK st0"
    unfolding res_def
    by (rule outer_loop_first_block [OF block_count_pos [OF valid(1) valid(4)] nn])
  moreover have "rc = PKCS5_INVALID_PRF" if "res = Return rc st'" for rc st'
    using that unfolding res_def by (rule outer_loop_Return(1))
  ultimately show ?thesis
    unfolding eq by (cases res) (auto simp: st0_def)
qed

lemma pbkdf2_spec_blocks:
  assumes "md_get_algo_dlen g a \<noteq> 0"
  shows "pbkdf2_spec g a P S n (unat dkLen) =
     map_option (take (unat dkLen))
       (blocks_upto g a (unat (md_get_algo_dlen g a)) P S n
          (unat (block_count dkLen (md_get_algo_dlen g a))))"
  by (simp add: pbkdf2_spec_def Let_def block_count_unat [OF assms])

lemma bytes_at_store_bytes: "bytes_at (store_bytes m bs) (length bs) = bs"
  by (simp add: list_eq_iff_nth_eq store_bytes_def)

lemma store_bytes_beyond: "length bs \<le> j \<Longrightarrow> store_bytes m bs j = m j"
  by (simp add: store_bytes_def)

lemma pbkdf2_OK_valid:
  assumes "gnutls_pkcs5_pbkdf2 fo fi g a P S c dkLen st = Return PKCS5_OK st'"
  shows "md_get_algo_dlen g a \<noteq> 0" "md_get_algo_dlen g a \<le> MAX_PRF_BLOCK_LEN"
    "c \<noteq> 0" "dkLen \<noteq> 0"
  using assms by (auto simp: gnutls_pkcs5_pbkdf2_def Let_def split: if_splits)

lemma pbkdf2_OK:
  fixes g a dkLen c
  defines "hLen \<equiv> md_get_algo_dlen g a"
  assumes ok: "gnutls_pkcs5_pbkdf2 fo fi g a P S c dkLen st = Return PKCS5_OK st'"
  shows "c \<noteq> - 1" and "block_count dkLen hLen \<noteq> - 1"
    and "\<not> alloca_null g (length S + 4)" and "\<not> md_open_err g a"
    and "\<exists>bs. blocks_upto g a (unat hLen) P S (unat c) (unat (block_count dkLen hLen)) = Some bs \<and>
           DK st' = store_bytes (DK st) (take (unat dkLen) bs)"
    and "md_live st' = md_live st"
proof -
  note valid = pbkdf2_OK_valid [OF ok, folded hLen_def]
  have nofail: "\<not> (md_open_err g a \<or> alloca_null g (length S + 4) \<or> c = - 1 \<or>
               T_block g a (unat hLen) P S (unat c) 1 = None)"
  proof
    assume "md_open_err g a \<or> alloca_null g (length S + 4) \<or> c = - 1 \<or>
               T_block g a (unat hLen) P S (unat c) 1 = None"
    from pbkdf2_first_block [OF valid [unfolded hLen_def] this [unfolded hLen_def],
        where fo = fo and fi = fi and st = st] ok
    show False by simp
  qed
  then show c: "c \<noteq> - 1" and al: "\<not> alloca_null g (length S + 4)" and op: "\<not> md_open_err g a"
    by simp_all
  show l: "block_count dkLen hLen \<noteq> - 1"
  proof
    assume "block_count dkLen hLen = - 1"
    then show False
      using ok pbkdf2_unfold [where g = g and a = a and c = c and dkLen = dkLen and fo = fo
        and fi = fi and P = P and S = S and st = st] valid outer_loop_max_blocks
      by (auto simp: hLen_def split: option.splits flow.splits dest: outer_loop_Return(1))
  qed
  from pbkdf2_main [OF valid [unfolded hLen_def] c l [unfolded hLen_def] al op,
      where fo = fo and fi = fi and st = st and P = P] ok
  show "\<exists>bs. blocks_upto g a (unat hLen) P S (unat c) (unat (block_count dkLen hLen)) = Some bs \<and>
           DK st' = store_bytes (DK st) (take (unat dkLen) bs)"
    and "md_live st' = md_live st"
    by (auto simp: hLen_def split: option.splits)
qed

lemma pbkdf2_OK_key:
  assumes ok: "gnutls_pkcs5_pbkdf2 fo fi g a P S c dkLen st = Return PKCS5_OK st'"
  shows "\<exists>key. pbkdf2_spec g a P S (unat c) (unat dkLen) = Some key \<and>
           length key = unat dkLen \<and> DK st' = store_bytes (DK st) key"
proof -
  let ?hLen = "md_get_algo_dlen g a"
  note valid = pbkdf2_OK_valid [OF ok]
  from pbkdf2_OK(5) [OF ok] obtain bs where
    bs: "blocks_upto g a (unat ?hLen) P S (unat c) (unat (block_count dkLen ?hLen)) = Some bs"
    and DK: "DK st' = store_bytes (DK st) (take (unat dkLen) bs)"
    by blast
  have "unat dkLen \<le> length bs"
    using blocks_upto_length [OF bs] last_len_unat(2) [OF valid(1) valid(4)] by simp
  then have "length (take (unat dkLen) bs) = unat dkLen" by simp
  moreover have "pbkdf2_spec g a P S (unat c) (unat dkLen) = Some (take (unat dkLen) bs)"
    by (simp add: pbkdf2_spec_blocks [OF valid(1)] bs)
  ultimately show ?thesis using DK by blast
qed


lemma rc_of_Some_state: "rc_of f = Some rc \<Longrightarrow> f = Return rc (state_of f)"
  by (cases f) auto



lemma pbkdf2_invalid:
  assumes "\<not> (md_get_algo_dlen g a \<noteq> 0 \<and> md_get_algo_dlen g a \<le> MAX_PRF_BLOCK_LEN \<and>
      c \<noteq> 0 \<and> dkLen \<noteq> 0)"
  shows "gnutls_pkcs5_pbkdf2 fo fi g a P S c dkLen st =
     Return (if md_get_algo_dlen g a = 0 \<or> MAX_PRF_BLOCK_LEN < md_get_algo_dlen g a
             then PKCS5_INVALID_PRF
             else if c = 0 then PKCS5_INVALID_ITERATION_COUNT
             else PKCS5_INVALID_DERIVED_KEY_LENGTH) st"
  using assms by (auto simp: gnutls_pkcs5_pbkdf2_def Let_def)

text \<open>Every error that comes out of the loops leaves the context open.\<close>

lemma pbkdf2_error_leaks:
  assumes "md_get_algo_dlen g a \<noteq> 0" "md_get_algo_dlen g a \<le> MAX_PRF_BLOCK_LEN"
    and "c \<noteq> 0" "dkLen \<noteq> 0" and "\<not> md_open_err g a"
    and "gnutls_pkcs5_pbkdf2 fo fi g a P S c dkLen st = Return rc st'" and "rc \<noteq> PKCS5_OK"
  shows "md_live st' = Suc (md_live st)"
  using assms(5-)
  by (auto simp: pbkdf2_unfold [OF assms(1-4)] gcry_md_open_def
      split: option.splits flow.splits if_splits dest: outer_loop_Return(2))


lemma pbkdf2_OK_bytes:
  assumes "gnutls_pkcs5_pbkdf2 fo fi g a P S c dkLen st = Return PKCS5_OK st'"
  shows "pbkdf2_spec g a P S (unat c) (unat dkLen) = Some (bytes_at (DK st') (unat dkLen))"
proof -
  from pbkdf2_OK_key [OF assms] obtain key where
    key: "pbkdf2_spec g a P S (unat c) (unat dkLen) = Some key" "length key = unat dkLen"
      "DK st' = store_bytes (DK st) key"
    by blast
  then show ?thesis
    using bytes_at_store_bytes [of "DK st" key] by simp
qed

lemma ceil_div_mono: "0 < h \<Longrightarrow> d1 \<le> d2 \<Longrightarrow> ceil_div d1 h \<le> ceil_div d2 h"
  by (simp add: ceil_div_def div_le_mono)


text \<open>When nothing in the library fails, the loops never return.\<close>

lemma inner_loop_no_Return:
  assumes "\<And>i u st. step_digest g a P S hLen i u st \<noteq> None"
  shows "inner_loop fuel g a P S hLen c i u st \<noteq> Return rc st'"
proof (induction fuel arbitrary: u st)
  case 0
  show ?case
    by (subst inner_loop.simps) simp
next
  case (Suc n)
  from assms [of i u st] obtain p where "step_digest g a P S hLen i u st = Some p"
    by auto
  from iteration_Some [OF this] obtain st1 where "iteration g a P S hLen i u st = Next st1"
    by blast
  with Suc [where u = "u + 1" and st = st1] show ?case
    by (subst inner_loop.simps) simp
qed

lemma outer_loop_no_Return:
  assumes "\<And>i u st. step_digest g a P S hLen i u st \<noteq> None"
  shows "outer_loop fo fi g a P S hLen c l r i st \<noteq> Return rc st'"
proof (induction fo arbitrary: i st)
  case 0
  show ?case
    by (subst outer_loop.simps) simp
next
  case (Suc n)
  show ?case
    using inner_loop_no_Return [OF assms]
    by (subst outer_loop.simps) (auto split: flow.splits simp: Suc)
qed

lemma step_digest_lib_ok: "step_digest (lib_ok h) a P S hLen i u st \<noteq> None"
  by (simp add: step_digest_def lib_ok_def toy_hmac_def)

text \<open>Beyond the requested length nothing is written, unless the block counter can wrap.\<close>

lemma pbkdf2_frame:
  assumes l: "block_count dkLen (md_get_algo_dlen g a) \<noteq> - 1" and j: "unat dkLen \<le> j"
  shows "DK (state_of (gnutls_pkcs5_pbkdf2 fo fi g a P S c dkLen st)) j = DK st j"
proof (cases "md_get_algo_dlen g a \<noteq> 0 \<and> md_get_algo_dlen g a \<le> MAX_PRF_BLOCK_LEN \<and>
    c \<noteq> 0 \<and> dkLen \<noteq> 0")
  case False
  from pbkdf2_invalid [OF False, of fo fi P S st] show ?thesis
    by simp
next
  case True
  then have valid: "md_get_algo_dlen g a \<noteq> 0" "md_get_algo_dlen g a \<le> MAX_PRF_BLOCK_LEN"
      "c \<noteq> 0" "dkLen \<noteq> 0"
    by simp_all
  let ?h = "unat (md_get_algo_dlen g a)" and ?l = "unat (block_count dkLen (md_get_algo_dlen g a))"
  note ll = last_len_unat [OF valid(1) valid(4)]
  show ?thesis
  proof (cases "md_open_err g a \<or> alloca_null g (length S + 4) \<or> c = - 1")
    case True
    then have "md_open_err g a \<or> alloca_null g (length S + 4) \<or> c = - 1 \<or>
        T_block g a ?h P S (unat c) 1 = None"
      by auto
    from pbkdf2_first_block [OF valid this, where fo = fo and fi = fi and st = st]
    show ?thesis
      by (cases "gnutls_pkcs5_pbkdf2 fo fi g a P S c dkLen st") auto
  next
    case False
    then have al: "\<not> alloca_null g (length S + 4)" and op: "\<not> md_open_err g a"
      and c: "c \<noteq> - 1"
      by simp_all
    have short: "store_bytes (DK st) bs j = DK st j"
      if "blocks_upto g a ?h P S (unat c) n = Some bs" "n < ?l" for n bs
    proof -
      have "n * ?h \<le> (?l - 1) * ?h"
        using that(2) by (intro mult_le_mono1) simp
      then have "n * ?h < unat dkLen"
        using ll(1) by (rule le_less_trans)
      then show ?thesis
        using blocks_upto_length [OF that(1)] j by (simp add: store_bytes_beyond)
    qed
    have cut: "store_bytes (DK st) (take (unat dkLen) bs) j = DK st j" for bs
      using j by (simp add: store_bytes_beyond)
    from pbkdf2_main [OF valid c l al op, where fo = fo and fi = fi and st = st and P = P]
    show ?thesis
      by (cases "gnutls_pkcs5_pbkdf2 fo fi g a P S c dkLen st")
        (auto simp: short cut split: option.splits)
  qed
qed

text \<open>
  With \<open>hLen = 1\<close> and \<open>dkLen = 2^32 - 1\<close> the block count is \<open>2^32 - 1\<close> and the outer
  loop cannot end: after the last block the counter wraps to 0 and the block it computes
  then is stored at offset \<open>(0 - 1) * hLen = 2^32 - 1\<close>.
\<close>

lemma inner_loop_lib_ok_1:
  "\<exists>st2. inner_loop (Suc fi) (lib_ok 1) a P S 1 1 i 1 st = Next st2 \<and> DK st2 = DK st \<and>
     T st2 0 = T st 0 XOR (sum_list P + 3 * sum_list (S @ int_octets i))"
proof -
  have "step_digest (lib_ok 1) a P S 1 i 1 st
      = Some (\<lambda>k. of_nat k + sum_list P + 3 * sum_list (S @ int_octets i))"
    by (simp add: step_digest_def lib_ok_def toy_hmac_def)
  from iteration_Some [OF this] obtain st1 where
    it: "iteration (lib_ok 1) a P S 1 i 1 st = Next st1" and DK: "DK st1 = DK st"
    and T: "T st1 0 = T st 0 XOR (sum_list P + 3 * sum_list (S @ int_octets i))"
    by auto
  have "\<not> (1 + 1 :: uint) \<le> 1"
    by (simp add: word_le_nat_alt)
  then have "inner_loop fi (lib_ok 1) a P S 1 1 i (1 + 1) st1 = Next st1"
    by (subst inner_loop.simps) (simp only: if_False)
  with it have "inner_loop (Suc fi) (lib_ok 1) a P S 1 1 i 1 st = Next st1"
    by (subst inner_loop.simps) simp
  with DK T show ?thesis by blast
qed

lemma outer_loop_lib_ok_1:
  "\<exists>st'. outer_loop (Suc n) (Suc fi) (lib_ok 1) a P S 1 1 (- 1) 1 i st = OutOfFuel st' \<and>
     DK st' (unat (i + of_nat n - 1)) = sum_list P + 3 * sum_list (S @ int_octets (i + of_nat n))"
proof (induction n arbitrary: i st)
  case 0
  let ?st1 = "st\<lparr>T := memset (T st) 0 (unat (1 :: uint))\<rparr>"
  from inner_loop_lib_ok_1 [of fi a P S i ?st1] obtain st2 where
    inn: "inner_loop (Suc fi) (lib_ok 1) a P S 1 1 i 1 ?st1 = Next st2"
    and T: "T st2 0 = sum_list P + 3 * sum_list (S @ int_octets i)"
    by (auto simp: memset_def)
  let ?st3 = "st2\<lparr>DK := memcpy (DK st2) (unat ((i - 1) * 1)) (T st2)
                       (unat (if i = - 1 then 1 else (1 :: uint)))\<rparr>"
  have "outer_loop 0 (Suc fi) (lib_ok 1) a P S 1 1 (- 1) 1 (i + 1) ?st3 = OutOfFuel ?st3"
    by (subst outer_loop.simps) simp
  with inn have "outer_loop (Suc 0) (Suc fi) (lib_ok 1) a P S 1 1 (- 1) 1 i st = OutOfFuel ?st3"
    by (subst outer_loop.simps) simp
  moreover have "DK ?st3 (unat (i - 1)) = sum_list P + 3 * sum_list (S @ int_octets i)"
    using T by (simp add: memcpy_def)
  ultimately show ?case
    by (intro exI [of _ ?st3]) simp
next
  case (Suc n)
  let ?st1 = "st\<lparr>T := memset (T st) 0 (unat (1 :: uint))\<rparr>"
  from inner_loop_lib_ok_1 [of fi a P S i ?st1] obtain st2 where
    inn: "inner_loop (Suc fi) (lib_ok 1) a P S 1 1 i 1 ?st1 = Next st2"
    by blast
  let ?st3 = "st2\<lparr>DK := memcpy (DK st2) (unat ((i - 1) * 1)) (T st2)
                       (unat (if i = - 1 then 1 else (1 :: uint)))\<rparr>"
  from Suc [of "i + 1" ?st3] obtain st' where
    run: "outer_loop (Suc n) (Suc fi) (lib_ok 1) a P S 1 1 (- 1) 1 (i + 1) ?st3 = OutOfFuel st'"
    and DK: "DK st' (unat (i + 1 + of_nat n - 1))
        = sum_list P + 3 * sum_list (S @ int_octets (i + 1 + of_nat n))"
    by blast
  have "outer_loop (Suc (Suc n)) (Suc fi) (lib_ok 1) a P S 1 1 (- 1) 1 i st = OutOfFuel st'"
    using inn run by (subst outer_loop.simps) simp
  moreover have "i + of_nat (Suc n) = i + 1 + of_nat n"
    by simp
  ultimately show ?case
    using DK by (intro exI [of _ st']) (simp only: simp_thms)
qed






section \<open>The claims\<close>

text \<open>
  Claim C1. For every PRF with a valid digest length, every password, salt, iteration
  count \<open>c \<ge> 1\<close> and valid output length, when every PRF invocation succeeds the
  function returns \<^verbatim>\<open>PKCS5_OK\<close> and the output is \<open>T_1 || \<dots> || T_l\<close> cut to the output
  length, \<open>T_i\<close> the XOR of the \<open>c\<close> iterates chained from \<open>PRF (P, S || INT (i))\<close>.
  Lemma \<open>pbkdf2_correct\<close> proves this whenever the iteration count and the block count
  are below \<open>2^32 - 1\<close>, and \<open>int_octets_BE\<close> that the four bytes are the block index
  with the most significant byte first. At \<open>c = 2^32 - 1\<close> the claim fails: \<open>u <= c\<close>
  holds for every 32-bit \<open>u\<close>, the counter wraps, and with a PRF that never fails the
  function returns for no amount of fuel.
\<close>

theorem max_iteration_count_never_returns:
  "rc_of (gnutls_pkcs5_pbkdf2 fo fi (lib_ok 20) 0 password salt_bytes 4294967295 20 state_a) = None"
proof -
  let ?g = "lib_ok 20"
  have valid: "md_get_algo_dlen ?g 0 \<noteq> 0" "md_get_algo_dlen ?g 0 \<le> MAX_PRF_BLOCK_LEN"
    "(4294967295 :: uint) \<noteq> 0" "(20 :: uint) \<noteq> 0"
    by (simp_all add: lib_ok_def MAX_PRF_BLOCK_LEN_def)
  have "md_open_err ?g 0 \<or> alloca_null ?g (length salt_bytes + 4) \<or> (4294967295 :: uint) = - 1 \<or>
      T_block ?g 0 (unat (md_get_algo_dlen ?g 0)) password salt_bytes
        (unat (4294967295 :: uint)) 1 = None"
    by simp
  note fb = pbkdf2_first_block [OF valid this, where fo = fo and fi = fi and st = state_a]
  from fb
  have nn: "gnutls_pkcs5_pbkdf2 fo fi ?g 0 password salt_bytes 4294967295 20 state_a \<noteq> Next st'" for st'
    by (auto split: flow.splits)
  have nr: "gnutls_pkcs5_pbkdf2 fo fi ?g 0 password salt_bytes 4294967295 20 state_a \<noteq> Return rc st'"
    for rc st'
  proof -
    have "\<not> md_open_err ?g 0"
      by (simp add: lib_ok_def)
    then obtain st0 where "gcry_md_open ?g 0 state_a = Some st0"
      by (simp add: gcry_md_open_def)
    moreover have "rc \<noteq> PKCS5_OK"
      if "gnutls_pkcs5_pbkdf2 fo fi ?g 0 password salt_bytes 4294967295 20 state_a = Return rc st'"
      using fb that by simp
    ultimately show ?thesis
      using outer_loop_no_Return [where g = ?g, OF step_digest_lib_ok]
      by (auto simp: pbkdf2_unfold [OF valid] split: flow.splits)
  qed
  from nn nr show ?thesis
    by (cases "gnutls_pkcs5_pbkdf2 fo fi ?g 0 password salt_bytes 4294967295 20 state_a") auto
qed

text \<open>
  Claim C2. When the digest length passes validation and the iteration count and the
  output length are at least 1, the function returns \<^verbatim>\<open>PKCS5_DERIVED_KEY_TOO_LONG\<close>
  exactly when the output length exceeds \<open>(2^32 - 1) * hLen\<close>. For a 32-bit output
  length neither side ever holds.
\<close>

theorem too_long_iff:
  assumes "md_get_algo_dlen g PRF \<noteq> 0" and "md_get_algo_dlen g PRF \<le> MAX_PRF_BLOCK_LEN"
    and "c \<noteq> 0" and "dkLen \<noteq> 0"
  shows "rc_of (gnutls_pkcs5_pbkdf2 fo fi g PRF P S c dkLen st) = Some PKCS5_DERIVED_KEY_TOO_LONG
     \<longleftrightarrow> (2 ^ 32 - 1) * unat (md_get_algo_dlen g PRF) < unat dkLen"
proof -
  have "rc_of (gnutls_pkcs5_pbkdf2 fo fi g PRF P S c dkLen st) \<noteq> Some PKCS5_DERIVED_KEY_TOO_LONG"
    by (auto simp: rc_of_Some dest: pbkdf2_rc_cases)
  moreover have "\<not> (2 ^ 32 - 1) * unat (md_get_algo_dlen g PRF) < unat dkLen"
  proof -
    have "0 < unat (md_get_algo_dlen g PRF)"
      using assms(1) by (simp add: unat_gt_0)
    moreover have "unat dkLen < 2 ^ 32"
      using unsigned_less [of dkLen, where ?'a = nat] by simp
    ultimately have "unat dkLen \<le> (2 ^ 32 - 1) * 1"
      and "(2 ^ 32 - 1) * (1 :: nat) \<le> (2 ^ 32 - 1) * unat (md_get_algo_dlen g PRF)"
      by simp_all
    then show ?thesis by linarith
  qed
  ultimately show ?thesis by simp
qed

theorem too_long_iff_witness:
  "md_get_algo_dlen (lib_ok 2) 0 \<noteq> 0 \<and> md_get_algo_dlen (lib_ok 2) 0 \<le> MAX_PRF_BLOCK_LEN \<and>
   (2 :: uint) \<noteq> 0 \<and> (3 :: uint) \<noteq> 0 \<and>
   (rc_of (gnutls_pkcs5_pbkdf2 5 5 (lib_ok 2) 0 password salt_bytes 2 3 state_a)
      = Some PKCS5_DERIVED_KEY_TOO_LONG
    \<longleftrightarrow> (2 ^ 32 - 1) * unat (md_get_algo_dlen (lib_ok 2) 0) < unat (3 :: uint))"
proof -
  have h: "md_get_algo_dlen (lib_ok 2) 0 \<noteq> 0" "md_get_algo_dlen (lib_ok 2) 0 \<le> MAX_PRF_BLOCK_LEN"
    by (simp_all add: lib_ok_def MAX_PRF_BLOCK_LEN_def)
  have n: "(2 :: uint) \<noteq> 0" "(3 :: uint) \<noteq> 0"
    by simp_all
  from too_long_iff [OF h n, of 5 5 password salt_bytes state_a] h n show ?thesis
    by blast
qed

text \<open>
  Claim C3. The parameter checks come in a fixed order: a digest length that is zero or
  above the maximum gives \<^verbatim>\<open>PKCS5_INVALID_PRF\<close> whatever the other parameters are; else
  an iteration count of zero gives \<^verbatim>\<open>PKCS5_INVALID_ITERATION_COUNT\<close> whatever the output
  length is; else an output length of zero gives \<^verbatim>\<open>PKCS5_INVALID_DERIVED_KEY_LENGTH\<close>.
  The three codes are distinct. Each of these returns leaves the state as it was: no
  context has been opened and no loop iteration has started (the fuel may be 0).
\<close>

theorem validation_order:
  "(md_get_algo_dlen g PRF = 0 \<or> MAX_PRF_BLOCK_LEN < md_get_algo_dlen g PRF \<longrightarrow>
      gnutls_pkcs5_pbkdf2 fo fi g PRF P S c dkLen st = Return PKCS5_INVALID_PRF st) \<and>
   (\<not> (md_get_algo_dlen g PRF = 0 \<or> MAX_PRF_BLOCK_LEN < md_get_algo_dlen g PRF) \<and> c = 0 \<longrightarrow>
      gnutls_pkcs5_pbkdf2 fo fi g PRF P S c dkLen st = Return PKCS5_INVALID_ITERATION_COUNT st) \<and>
   (\<not> (md_get_algo_dlen g PRF = 0 \<or> MAX_PRF_BLOCK_LEN < md_get_algo_dlen g PRF) \<and> c \<noteq> 0 \<and>
    dkLen = 0 \<longrightarrow>
      gnutls_pkcs5_pbkdf2 fo fi g PRF P S c dkLen st = Return PKCS5_INVALID_DERIVED_KEY_LENGTH st) \<and>
   distinct [PKCS5_INVALID_PRF, PKCS5_INVALID_ITERATION_COUNT, PKCS5_INVALID_DERIVED_KEY_LENGTH]"
  by (simp add: gnutls_pkcs5_pbkdf2_def Let_def)

theorem validation_order_witness:
  "(md_get_algo_dlen (lib_ok 0) 0 = 0 \<and>
    gnutls_pkcs5_pbkdf2 0 0 (lib_ok 0) 0 password salt_bytes 0 0 state_a
      = Return PKCS5_INVALID_PRF state_a) \<and>
   (MAX_PRF_BLOCK_LEN < md_get_algo_dlen (lib_ok 81) 0 \<and>
    gnutls_pkcs5_pbkdf2 0 0 (lib_ok 81) 0 password salt_bytes 0 0 state_a
      = Return PKCS5_INVALID_PRF state_a) \<and>
   (\<not> (md_get_algo_dlen (lib_ok 2) 0 = 0 \<or> MAX_PRF_BLOCK_LEN < md_get_algo_dlen (lib_ok 2) 0) \<and>
    gnutls_pkcs5_pbkdf2 0 0 (lib_ok 2) 0 password salt_bytes 0 0 state_a
      = Return PKCS5_INVALID_ITERATION_COUNT state_a) \<and>
   ((1 :: uint) \<noteq> 0 \<and>
    gnutls_pkcs5_pbkdf2 0 0 (lib_ok 2) 0 password salt_bytes 1 0 state_a
      = Return PKCS5_INVALID_DERIVED_KEY_LENGTH state_a)"
  using validation_order [of "lib_ok 0" 0 0 0 password salt_bytes 0 0 state_a]
    validation_order [of "lib_ok 81" 0 0 0 password salt_bytes 0 0 state_a]
    validation_order [of "lib_ok 2" 0 0 0 password salt_bytes 0 0 state_a]
    validation_order [of "lib_ok 2" 0 0 0 password salt_bytes 1 0 state_a]
  by (simp add: lib_ok_def MAX_PRF_BLOCK_LEN_def)

text \<open>
  Claim C4. A context acquired from the library is released before the function
  returns, on every exit path. This holds on success (\<open>pbkdf2_OK\<close>: the number of open
  contexts is what it was) and when validation or \<^verbatim>\<open>gcry_md_open\<close> fails (none was
  acquired), but every return out of the loops skips \<^verbatim>\<open>gcry_md_close\<close>
  (\<open>pbkdf2_error_leaks\<close>). Evaluated here on a library whose keying fails and on one
  whose digest read yields \<^verbatim>\<open>NULL\<close> in the second block: the function returns
  \<^verbatim>\<open>PKCS5_INVALID_PRF\<close> and one more context is open than before the call.
\<close>

theorem context_leaks_on_prf_failure:
  "rc_of (gnutls_pkcs5_pbkdf2 5 5 lib_nokey 0 password salt_bytes 1 3 state_a) = Some PKCS5_INVALID_PRF \<and>
   md_live (state_of (gnutls_pkcs5_pbkdf2 5 5 lib_nokey 0 password salt_bytes 1 3 state_a))
     = Suc (md_live state_a) \<and>
   rc_of (gnutls_pkcs5_pbkdf2 5 5 lib_fail2 0 password salt_bytes 1 3 state_a) = Some PKCS5_INVALID_PRF \<and>
   md_live (state_of (gnutls_pkcs5_pbkdf2 5 5 lib_fail2 0 password salt_bytes 1 3 state_a))
     = Suc (md_live state_a)"
  by code_simp

text \<open>
  Claim C5, as stated: either the function returns \<^verbatim>\<open>PKCS5_OK\<close> with the full derived key
  in the output buffer, or it returns an error and no byte of the output buffer has been
  written. Refuted on a library whose digest read fails in the second block: the function
  returns \<^verbatim>\<open>PKCS5_INVALID_PRF\<close> and the first block is already in the buffer.
\<close>

theorem partial_output_counterexample:
  "rc_of (gnutls_pkcs5_pbkdf2 5 5 lib_fail2 0 password salt_bytes 1 3 state_a) = Some PKCS5_INVALID_PRF \<and>
   DK state_a 0 = 0 \<and>
   DK (state_of (gnutls_pkcs5_pbkdf2 5 5 lib_fail2 0 password salt_bytes 1 3 state_a)) 0 = 15"
  by code_simp

text \<open>
  Claim C5, amended. Whenever the function returns: on \<^verbatim>\<open>PKCS5_OK\<close> the output buffer
  holds the full derived key of the specification; on an error from parameter validation,
  from opening the context, from the allocation or from a PRF failure within the first
  block, the output buffer is as it was; and on any error, for iteration and block counts
  below \<open>2^32 - 1\<close>, what has been written is a run of whole blocks \<open>T_1 || \<dots> || T_n\<close>
  with \<open>n\<close> less than the block count.
\<close>

theorem no_partial_success:
  fixes g PRF P S c dkLen fo fi st
  defines "hLen \<equiv> md_get_algo_dlen g PRF"
    and "res \<equiv> gnutls_pkcs5_pbkdf2 fo fi g PRF P S c dkLen st"
  assumes ret: "rc_of res = Some rc"
  shows "(rc = PKCS5_OK \<longrightarrow>
            pbkdf2_spec g PRF P S (unat c) (unat dkLen)
              = Some (bytes_at (DK (state_of res)) (unat dkLen))) \<and>
         (rc \<noteq> PKCS5_OK \<and>
            (hLen = 0 \<or> MAX_PRF_BLOCK_LEN < hLen \<or> c = 0 \<or> dkLen = 0 \<or> md_open_err g PRF \<or>
             alloca_null g (length S + 4) \<or>
             T_block g PRF (unat hLen) P S (unat c) 1 = None) \<longrightarrow>
            DK (state_of res) = DK st) \<and>
         (rc \<noteq> PKCS5_OK \<and> hLen \<noteq> 0 \<and> hLen \<le> MAX_PRF_BLOCK_LEN \<and> c \<noteq> 0 \<and> dkLen \<noteq> 0 \<and>
            c \<noteq> - 1 \<and> block_count dkLen hLen \<noteq> - 1 \<longrightarrow>
            (\<exists>n bs. n < unat (block_count dkLen hLen) \<and>
               blocks_upto g PRF (unat hLen) P S (unat c) n = Some bs \<and>
               DK (state_of res) = store_bytes (DK st) bs))"
proof (intro conjI impI)
  note r = rc_of_Some_state [OF ret]
  {
    assume "rc = PKCS5_OK"
    with r have "gnutls_pkcs5_pbkdf2 fo fi g PRF P S c dkLen st = Return PKCS5_OK (state_of res)"
      by (simp add: res_def)
    then show "pbkdf2_spec g PRF P S (unat c) (unat dkLen)
        = Some (bytes_at (DK (state_of res)) (unat dkLen))"
      by (rule pbkdf2_OK_bytes)
  }
  {
    assume a: "rc \<noteq> PKCS5_OK \<and>
        (hLen = 0 \<or> MAX_PRF_BLOCK_LEN < hLen \<or> c = 0 \<or> dkLen = 0 \<or> md_open_err g PRF \<or>
         alloca_null g (length S + 4) \<or> T_block g PRF (unat hLen) P S (unat c) 1 = None)"
    show "DK (state_of res) = DK st"
    proof (cases "hLen \<noteq> 0 \<and> hLen \<le> MAX_PRF_BLOCK_LEN \<and> c \<noteq> 0 \<and> dkLen \<noteq> 0")
      case False
      from pbkdf2_invalid [OF False [unfolded hLen_def], of fo fi P S st] show ?thesis
        by (simp add: res_def)
    next
      case True
      then have valid: "md_get_algo_dlen g PRF \<noteq> 0" "md_get_algo_dlen g PRF \<le> MAX_PRF_BLOCK_LEN"
          "c \<noteq> 0" "dkLen \<noteq> 0"
        by (simp_all add: hLen_def)
      from True a
      have "md_open_err g PRF \<or> alloca_null g (length S + 4) \<or> c = - 1 \<or>
          T_block g PRF (unat (md_get_algo_dlen g PRF)) P S (unat c) 1 = None"
        by (auto simp: hLen_def)
      from pbkdf2_first_block [OF valid this, where fo = fo and fi = fi and st = st] r
      show ?thesis
        by (auto simp: res_def split: flow.splits)
    qed
  }
  {
    assume a: "rc \<noteq> PKCS5_OK \<and> hLen \<noteq> 0 \<and> hLen \<le> MAX_PRF_BLOCK_LEN \<and> c \<noteq> 0 \<and> dkLen \<noteq> 0 \<and>
        c \<noteq> - 1 \<and> block_count dkLen hLen \<noteq> - 1"
    then have valid: "md_get_algo_dlen g PRF \<noteq> 0" "md_get_algo_dlen g PRF \<le> MAX_PRF_BLOCK_LEN"
        "c \<noteq> 0" "dkLen \<noteq> 0"
      and c: "c \<noteq> - 1" and l: "block_count dkLen (md_get_algo_dlen g PRF) \<noteq> - 1"
      by (simp_all add: hLen_def)
    have l0: "0 < unat (block_count dkLen hLen)"
      unfolding hLen_def by (rule last_len_unat(4) [OF valid(1) valid(4)])
    have z: "blocks_upto g PRF (unat hLen) P S (unat c) 0 = Some []"
      by simp
    show "\<exists>n bs. n < unat (block_count dkLen hLen) \<and>
        blocks_upto g PRF (unat hLen) P S (unat c) n = Some bs \<and>
        DK (state_of res) = store_bytes (DK st) bs"
    proof (cases "md_open_err g PRF \<or> alloca_null g (length S + 4)")
      case True
      then have "md_open_err g PRF \<or> alloca_null g (length S + 4) \<or> c = - 1 \<or>
          T_block g PRF (unat (md_get_algo_dlen g PRF)) P S (unat c) 1 = None"
        by auto
      from pbkdf2_first_block [OF valid this, where fo = fo and fi = fi and st = st] r
      have "DK (state_of res) = store_bytes (DK st) []"
        by (auto simp: res_def split: flow.splits)
      with l0 z show ?thesis by blast
    next
      case False
      then have al: "\<not> alloca_null g (length S + 4)" and op: "\<not> md_open_err g PRF"
        by simp_all
      from pbkdf2_main [OF valid c l al op, where fo = fo and fi = fi and st = st and P = P] r a
      show ?thesis
        by (auto simp: res_def hLen_def split: flow.splits option.splits)
    qed
  }
qed

theorem no_partial_success_witness:
  "rc_of (gnutls_pkcs5_pbkdf2 5 5 (lib_ok 2) 0 password salt_bytes 2 3 state_a) = Some PKCS5_OK \<and>
   pbkdf2_spec (lib_ok 2) 0 password salt_bytes (unat (2 :: uint)) (unat (3 :: uint))
     = Some (bytes_at (DK (state_of (gnutls_pkcs5_pbkdf2 5 5 (lib_ok 2) 0 password salt_bytes 2 3 state_a)))
         (unat (3 :: uint))) \<and>
   rc_of (gnutls_pkcs5_pbkdf2 5 5 lib_nokey 0 password salt_bytes 1 3 state_a) = Some PKCS5_INVALID_PRF \<and>
   T_block lib_nokey 0 (unat (md_get_algo_dlen lib_nokey 0)) password salt_bytes (unat (1 :: uint)) 1
     = None \<and>
   DK (state_of (gnutls_pkcs5_pbkdf2 5 5 lib_nokey 0 password salt_bytes 1 3 state_a)) = DK state_a \<and>
   rc_of (gnutls_pkcs5_pbkdf2 5 5 lib_fail2 0 password salt_bytes 1 3 state_a) = Some PKCS5_INVALID_PRF \<and>
   (\<exists>n bs. n < unat (block_count 3 (md_get_algo_dlen lib_fail2 0)) \<and>
      blocks_upto lib_fail2 0 (unat (md_get_algo_dlen lib_fail2 0)) password salt_bytes
        (unat (1 :: uint)) n = Some bs \<and>
      DK (state_of (gnutls_pkcs5_pbkdf2 5 5 lib_fail2 0 password salt_bytes 1 3 state_a))
        = store_bytes (DK state_a) bs)"
proof -
  have r1: "rc_of (gnutls_pkcs5_pbkdf2 5 5 (lib_ok 2) 0 password salt_bytes 2 3 state_a) = Some PKCS5_OK"
    by code_simp
  have r2: "rc_of (gnutls_pkcs5_pbkdf2 5 5 lib_nokey 0 password salt_bytes 1 3 state_a)
      = Some PKCS5_INVALID_PRF"
    by code_simp
  have r3: "rc_of (gnutls_pkcs5_pbkdf2 5 5 lib_fail2 0 password salt_bytes 1 3 state_a)
      = Some PKCS5_INVALID_PRF"
    by code_simp
  have t2: "T_block lib_nokey 0 (unat (md_get_algo_dlen lib_nokey 0)) password salt_bytes
      (unat (1 :: uint)) 1 = None"
    by (simp add: T_block_def PRF_out_def lib_nokey_def lib_ok_def)
  have p2: "PKCS5_INVALID_PRF \<noteq> PKCS5_OK \<and>
      (md_get_algo_dlen lib_nokey 0 = 0 \<or> MAX_PRF_BLOCK_LEN < md_get_algo_dlen lib_nokey 0 \<or>
       (1 :: uint) = 0 \<or> (3 :: uint) = 0 \<or> md_open_err lib_nokey 0 \<or>
       alloca_null lib_nokey (length salt_bytes + 4) \<or>
       T_block lib_nokey 0 (unat (md_get_algo_dlen lib_nokey 0)) password salt_bytes
         (unat (1 :: uint)) 1 = None)"
    using t2 by simp
  have p3: "PKCS5_INVALID_PRF \<noteq> PKCS5_OK \<and> md_get_algo_dlen lib_fail2 0 \<noteq> 0 \<and>
      md_get_algo_dlen lib_fail2 0 \<le> MAX_PRF_BLOCK_LEN \<and> (1 :: uint) \<noteq> 0 \<and> (3 :: uint) \<noteq> 0 \<and>
      (1 :: uint) \<noteq> - 1 \<and> block_count 3 (md_get_algo_dlen lib_fail2 0) \<noteq> - 1"
    by (simp add: lib_fail2_def lib_ok_def MAX_PRF_BLOCK_LEN_def block_count_def)
  note a = no_partial_success [OF r1, THEN conjunct1, THEN mp, OF refl]
  note b = no_partial_success [OF r2, THEN conjunct2, THEN conjunct1, THEN mp, OF p2]
  note c = no_partial_success [OF r3, THEN conjunct2, THEN conjunct2, THEN mp, OF p3]
  from r1 a r2 t2 b r3 c show ?thesis
    by (intro conjI)
qed




text \<open>
  Claim C7. For a fixed library, PRF, password, salt and iteration count, and two output
  lengths \<open>dkLen1 < dkLen2\<close> for which both derivations return \<^verbatim>\<open>PKCS5_OK\<close> (whatever
  the fuel and the initial contents of memory), the first \<open>dkLen1\<close> bytes of the two
  derived keys are the same.
\<close>

theorem length_prefix_consistency:
  assumes "rc_of (gnutls_pkcs5_pbkdf2 fo1 fi1 g PRF P S c dkLen1 sta) = Some PKCS5_OK"
    and "rc_of (gnutls_pkcs5_pbkdf2 fo2 fi2 g PRF P S c dkLen2 stb) = Some PKCS5_OK"
    and "dkLen1 < dkLen2"
  shows "bytes_at (DK (state_of (gnutls_pkcs5_pbkdf2 fo1 fi1 g PRF P S c dkLen1 sta))) (unat dkLen1) =
         take (unat dkLen1)
           (bytes_at (DK (state_of (gnutls_pkcs5_pbkdf2 fo2 fi2 g PRF P S c dkLen2 stb))) (unat dkLen2))"
proof -
  let ?hLen = "md_get_algo_dlen g PRF"
  let ?h = "unat ?hLen" and ?d1 = "unat dkLen1" and ?d2 = "unat dkLen2"
  let ?l1 = "unat (block_count dkLen1 ?hLen)" and ?l2 = "unat (block_count dkLen2 ?hLen)"
  let ?r1 = "gnutls_pkcs5_pbkdf2 fo1 fi1 g PRF P S c dkLen1 sta"
  let ?r2 = "gnutls_pkcs5_pbkdf2 fo2 fi2 g PRF P S c dkLen2 stb"
  note ok1 = rc_of_Some_state [OF assms(1)] and ok2 = rc_of_Some_state [OF assms(2)]
  note valid1 = pbkdf2_OK_valid [OF ok1] and valid2 = pbkdf2_OK_valid [OF ok2]
  from pbkdf2_OK(5) [OF ok1] obtain bs1 where
    bs1: "blocks_upto g PRF ?h P S (unat c) ?l1 = Some bs1"
    and DK1: "DK (state_of ?r1) = store_bytes (DK sta) (take ?d1 bs1)"
    by blast
  from pbkdf2_OK(5) [OF ok2] obtain bs2 where
    bs2: "blocks_upto g PRF ?h P S (unat c) ?l2 = Some bs2"
    and DK2: "DK (state_of ?r2) = store_bytes (DK stb) (take ?d2 bs2)"
    by blast
  have d12: "?d1 \<le> ?d2"
    using assms(3) by (simp add: word_less_nat_alt)
  have h: "0 < ?h"
    using valid1(1) by (simp add: unat_gt_0)
  have l12: "?l1 \<le> ?l2"
    using ceil_div_mono [OF h d12] by (simp add: block_count_unat [OF valid1(1)])
  have len1: "?d1 \<le> length bs1" and len2: "?d2 \<le> length bs2"
    using blocks_upto_length [OF bs1] last_len_unat(2) [OF valid1(1) valid1(4)]
      blocks_upto_length [OF bs2] last_len_unat(2) [OF valid2(1) valid2(4)]
    by simp_all
  have "bs1 = take (?l1 * ?h) bs2"
    using blocks_upto_prefix [OF bs2 l12] bs1 by simp
  then have "take ?d1 bs1 = take ?d1 bs2"
    using len1 blocks_upto_length [OF bs1] by (simp add: min_def)
  moreover have "bytes_at (DK (state_of ?r1)) ?d1 = take ?d1 bs1"
    using bytes_at_store_bytes [of "DK sta" "take ?d1 bs1"] len1 by (simp add: DK1)
  moreover have "bytes_at (DK (state_of ?r2)) ?d2 = take ?d2 bs2"
    using bytes_at_store_bytes [of "DK stb" "take ?d2 bs2"] len2 by (simp add: DK2)
  ultimately show ?thesis
    using d12 by (simp add: min_def)
qed

theorem length_prefix_consistency_witness:
  "rc_of (gnutls_pkcs5_pbkdf2 5 5 (lib_ok 2) 0 password salt_bytes 2 3 state_a) = Some PKCS5_OK \<and>
   rc_of (gnutls_pkcs5_pbkdf2 7 9 (lib_ok 2) 0 password salt_bytes 2 5 state_b) = Some PKCS5_OK \<and>
   (3 :: uint) < 5 \<and>
   bytes_at (DK (state_of (gnutls_pkcs5_pbkdf2 5 5 (lib_ok 2) 0 password salt_bytes 2 3 state_a))) (unat (3 :: uint)) =
     take (unat (3 :: uint))
       (bytes_at (DK (state_of (gnutls_pkcs5_pbkdf2 7 9 (lib_ok 2) 0 password salt_bytes 2 5 state_b)))
          (unat (5 :: uint)))"
proof -
  have ok1: "rc_of (gnutls_pkcs5_pbkdf2 5 5 (lib_ok 2) 0 password salt_bytes 2 3 state_a) = Some PKCS5_OK"
    by code_simp
  have ok2: "rc_of (gnutls_pkcs5_pbkdf2 7 9 (lib_ok 2) 0 password salt_bytes 2 5 state_b) = Some PKCS5_OK"
    by code_simp
  have lt: "(3 :: uint) < 5"
    by simp
  from length_prefix_consistency [OF ok1 ok2 lt] ok1 ok2 lt show ?thesis
    by blast
qed



text \<open>
  Claim C9. The output length is a 32-bit unsigned integer, so the guard
  \<^verbatim>\<open>dkLen > 4294967295U\<close> never holds and the function never returns
  \<^verbatim>\<open>PKCS5_DERIVED_KEY_TOO_LONG\<close>.
\<close>

theorem never_too_long:
  "\<not> (4294967295 :: uint) < dkLen \<and>
   rc_of (gnutls_pkcs5_pbkdf2 fo fi g PRF P S c dkLen st) \<noteq> Some PKCS5_DERIVED_KEY_TOO_LONG"
  by (auto simp: rc_of_Some not_too_long simp del: word_order.extremum_strict
      dest: pbkdf2_rc_cases)

text \<open>
  Claim C10. Writes to the output buffer stay within offsets \<open>0\<close> to \<open>dkLen - 1\<close>, and
  the password and the salt are not modified (the function only reads them; the model
  passes them by value). Lemma \<open>pbkdf2_frame\<close> proves the first part for every state the
  function can reach, returned or not, whenever the block count is below \<open>2^32 - 1\<close>.
  With \<open>hLen = 1\<close> and \<open>dkLen = 2^32 - 1\<close> the block count is \<open>2^32 - 1\<close>,
  \<^verbatim>\<open>(uint)i <= l\<close> holds for every \<open>i\<close>, and after the last block the counter wraps
  to 0: the state reached after \<open>2^32\<close> passes has a byte written at offset
  \<open>2^32 - 1 = dkLen\<close>.
\<close>

theorem max_block_count_writes_past_end:
  "unat (4294967295 :: uint) = 4294967295 \<and>
   DK state_a 4294967295 = 0 \<and>
   DK (state_of (gnutls_pkcs5_pbkdf2 4294967296 1 (lib_ok 1) 0 password salt_bytes 1 4294967295 state_a))
      4294967295 = 12"
proof -
  let ?g = "lib_ok 1"
  have valid: "md_get_algo_dlen ?g 0 \<noteq> 0" "md_get_algo_dlen ?g 0 \<le> MAX_PRF_BLOCK_LEN"
    "(1 :: uint) \<noteq> 0" "(4294967295 :: uint) \<noteq> 0"
    by (simp_all add: lib_ok_def MAX_PRF_BLOCK_LEN_def)
  have h: "md_get_algo_dlen ?g 0 = 1"
    by (simp add: lib_ok_def)
  have l: "block_count 4294967295 1 = (- 1 :: uint)" and r: "last_len 4294967295 1 = (1 :: uint)"
    by (simp_all add: block_count_def last_len_def)
  define st0 where "st0 = state_a\<lparr>prf_hd := \<lparr>hd_key = [], hd_buf = []\<rparr>,
    md_live := Suc (md_live state_a)\<rparr>"
  have opn: "gcry_md_open ?g 0 state_a = Some st0"
    by (simp add: gcry_md_open_def lib_ok_def st0_def)
  have fuel: "(4294967296 :: nat) = Suc 4294967295" "(1 :: nat) = Suc 0"
    by simp_all
  from outer_loop_lib_ok_1 [of 4294967295 0 0 password salt_bytes 1 st0] obtain st' where
    run: "outer_loop (Suc 4294967295) (Suc 0) ?g 0 password salt_bytes 1 1 (- 1) 1 1 st0
        = OutOfFuel st'"
    and DK: "DK st' (unat (1 + of_nat 4294967295 - (1 :: uint)))
        = sum_list password + 3 * sum_list (salt_bytes @ int_octets (1 + of_nat 4294967295))"
    by blast
  have "gnutls_pkcs5_pbkdf2 4294967296 1 ?g 0 password salt_bytes 1 4294967295 state_a = OutOfFuel st'"
    using run by (simp only: pbkdf2_unfold [OF valid] opn h l r fuel option.case flow.case)
  moreover have "DK st' 4294967295 = 12"
    using DK by (simp add: password_def salt_bytes_def int_octets_def)
  moreover have "DK state_a 4294967295 = 0"
    by (simp add: state_a_def)
  ultimately show ?thesis
    by simp
qed

end
